theory Spec2Isabelle
  imports Complex_Main "HOL-Library.Word"
begin

section \<open>Overlay layout of the photo translator\<close>

text \<open>
  The development embeds the overlay layout of \<^verbatim>\<open>src/src/App.tsx\<close> (the callback of
  \<^verbatim>\<open>translatedBlocks.map\<close>, lines 252 to 352) and the block adapter of
  \<^verbatim>\<open>src/src/services/visionService.ts\<close> (lines 62 to 73). The source tree also holds
  an earlier variant of the component, which searches the font size downwards in steps of
  0.5; the development follows \<^verbatim>\<open>src/src/App.tsx\<close>.

  Numbers. A JavaScript number is an IEEE 754 double, and every finite double is a
  rational. The fit solver (lines 266 to 312) is modelled on \<^typ>\<open>rat\<close> in double
  arithmetic: the result of each of its additions, subtractions, multiplications and
  divisions, and each of its decimal literals, is rounded to the nearest double, ties to
  even, by the function \<open>rd\<close> below. \<open>Math.floor\<close>, \<open>Math.ceil\<close>, \<open>Math.max\<close> and
  \<open>Math.min\<close> are exact on doubles; they are the floor, the ceiling, the maximum and
  the minimum of the rationals. The exponent range is bounded below (results under
  \<open>2 powi - 1022\<close> are rounded to multiples of \<open>2 powi - 1074\<close>, and a negative
  zero is the rational 0, which compares as the code's \<open>-0\<close> does); it is not bounded
  above, and the infinities and NaN are not modelled: on finite doubles no operation of
  the solver overflows, since it divides only by numbers of at least 1 and multiplies only
  a line count, a size of at most 40 and the two literals.

  The rectangle of a block (lines 260 to 263) is the exact value of the expression that
  the code evaluates; the solver, which is applied to its width and height, rounds from
  its first operation on. The theorems about the solver hold for every width and height.
  Counts that the code obtains from \<open>.length\<close>, from an array index or from
  \<open>clientWidth\<close> are natural numbers.

  Strings. The \<open>.length\<close> of a JavaScript string counts UTF-16 code units, so a string is
  a list of 16-bit words.
\<close>

subsection \<open>Double arithmetic\<close>

text \<open>
  \<open>roundHalfEven y\<close> is the integer nearest to \<open>y\<close>, the even one of the two when
  \<open>y\<close> lies half way. \<open>flog2 x\<close> is the binary exponent of a positive \<open>x\<close>, the
  \<open>e\<close> with \<open>2 powi e \<le> x < 2 powi (e + 1)\<close> (lemma \<open>flog2_bounds\<close>). A double
  with exponent \<open>e\<close> is a multiple of \<open>2 powi (e - 52)\<close> (53 significant bits), and
  of \<open>2 powi - 1074\<close> in the subnormal range:
  \<open>ulpExp x\<close> is the exponent of this unit, and \<open>rd x\<close> is the multiple of the unit
  that is nearest to \<open>x\<close>. A rational is a double when rounding leaves it as it is.
\<close>

definition roundHalfEven :: "rat \<Rightarrow> int" where
  "roundHalfEven y =
     (let f = \<lfloor>y\<rfloor>; r = y - rat_of_int f
      in if r < 1 / 2 then f else if 1 / 2 < r then f + 1 else if even f then f else f + 1)"

fun ilog2 :: "nat \<Rightarrow> nat" where
  "ilog2 n = (if n < 2 then 0 else Suc (ilog2 (n div 2)))"

declare ilog2.simps [simp del]

definition flog2 :: "rat \<Rightarrow> int" where
  "flog2 x = (if 1 \<le> x then int (ilog2 (nat \<lfloor>x\<rfloor>))
              else - int (Suc (ilog2 (nat \<lceil>1 / x\<rceil> - 1))))"

definition ulpExp :: "rat \<Rightarrow> int" where
  "ulpExp x = max (flog2 \<bar>x\<bar> - 52) (- 1074)"

definition rd :: "rat \<Rightarrow> rat" where
  "rd x = (if x = 0 then 0
           else rat_of_int (roundHalfEven (x / 2 powi ulpExp x)) * 2 powi ulpExp x)"

definition is_double :: "rat \<Rightarrow> bool" where
  "is_double x = (rd x = x)"

subsection \<open>Data model (visionService.ts, lines 3 to 15)\<close>

type_synonym js_string = "16 word list"

definition utf16 :: "string \<Rightarrow> js_string" where
  "utf16 cs = map (\<lambda>c. of_nat (of_char c)) cs"

record vertex =
  vx :: rat
  vy :: rat

record boundingBox =
  vertices :: "vertex list"

datatype orientation = horizontal | vertical

record translatedBlock =
  blockText :: js_string
  boundingBox :: boundingBox
  translatedText :: js_string
  orientation :: orientation

subsection \<open>The fit predicate (App.tsx, lines 280 to 295)\<close>

text \<open>
  \<open>checkFits\<close> closes over \<open>isVertical\<close>; the model takes it as its first argument.
  The argument \<open>fsize\<close> is the source's \<open>size\<close>. The literals \<open>1.2\<close> and \<open>1.05\<close> are
  the doubles nearest to 12/10 and 105/100, and the product
  \<open>totalLines * size * safeLineHeight\<close> is evaluated from the left, with two roundings.
  The search only calls \<open>checkFits\<close> with \<open>12 \<le> fsize\<close>, so the divisor
  \<open>effectiveSize\<close> is never zero there.
\<close>

definition checkFits :: "bool \<Rightarrow> rat \<Rightarrow> rat \<Rightarrow> rat \<Rightarrow> nat \<Rightarrow> bool" where
  "checkFits isVertical fsize W H count =
     (let safeLineHeight = rd (12 / 10);
          effectiveSize = rd (fsize * rd (105 / 100))
      in if isVertical then
           (let charsPerColumn = max \<lfloor>rd (H / effectiveSize)\<rfloor> 1;
                totalColumns = \<lceil>rd (rat_of_nat count / rat_of_int charsPerColumn)\<rceil>;
                neededWidth = rd (rd (rat_of_int totalColumns * fsize) * safeLineHeight)
            in neededWidth \<le> W)
         else
           (let charsPerLine = max \<lfloor>rd (W / effectiveSize)\<rfloor> 1;
                totalLines = \<lceil>rd (rat_of_nat count / rat_of_int charsPerLine)\<rceil>;
                neededHeight = rd (rd (rat_of_int totalLines * fsize) * safeLineHeight)
            in neededHeight \<le> H))"

subsection \<open>The binary search (App.tsx, lines 273 to 278 and 297 to 308)\<close>

record search_state =
  low :: rat
  high :: rat
  bestSize :: rat

definition precision :: rat where
  "precision = 1 / 2"

text \<open>One pass through the body of the \<open>while\<close> loop. The sum \<open>low + high\<close>, its half,
  \<open>mid + precision\<close> and \<open>mid - precision\<close> are each rounded.\<close>

definition searchStep :: "bool \<Rightarrow> rat \<Rightarrow> rat \<Rightarrow> nat \<Rightarrow> search_state \<Rightarrow> search_state" where
  "searchStep isVertical targetW targetH charCount s =
     (let mid = rd (rd (low s + high s) / 2)
      in if checkFits isVertical mid targetW targetH charCount
         then s\<lparr>bestSize := mid, low := rd (mid + precision)\<rparr>
         else s\<lparr>high := rd (mid - precision)\<rparr>)"

text \<open>
  The loop. In double arithmetic the body does not make progress from every state (at
  \<open>low = high = 2 ^ 53\<close> the sum \<open>mid + 0.5\<close> rounds back to \<open>mid\<close>), so the loop is a
  partial function: \<open>None\<close> stands for a loop that does not return (lemma
  \<open>searchLoop_stuck\<close> below). That the loop returns from the states of the solver is
  proved below (lemma \<open>searchLoop_returns\<close>).
\<close>

partial_function (option) searchLoop ::
  "bool \<Rightarrow> rat \<Rightarrow> rat \<Rightarrow> nat \<Rightarrow> search_state \<Rightarrow> search_state option" where
  "searchLoop isVertical targetW targetH charCount s =
     (if low s \<le> high s
      then searchLoop isVertical targetW targetH charCount
             (searchStep isVertical targetW targetH charCount s)
      else Some s)"

subsection \<open>The fit solver (App.tsx, lines 266 to 312)\<close>

text \<open>
  The solver is the part of the callback between the bounding box and the returned
  element: it reads \<open>width\<close>, \<open>height\<close>, \<open>charCount\<close> and \<open>isVertical\<close>, and
  the element reads \<open>bestSize\<close> (through \<open>finalRem\<close>) and \<open>shouldScroll\<close> from it.
  The spec's \<open>fontSizePx\<close> is \<open>bestSize\<close> and its \<open>overflow\<close> is
  \<open>shouldScroll\<close>. The solver reads the state in which the loop ends; the loop returns
  from the solver's initial state whatever the rectangle (\<open>searchLoop_returns\<close> and
  \<open>solverState_start\<close> below).
\<close>

definition padding :: rat where
  "padding = 4"

definition target :: "rat \<Rightarrow> rat" where
  "target extent = max (rd (extent - padding)) 1"

definition minSize :: rat where
  "minSize = 12"

definition maxSize :: "bool \<Rightarrow> rat \<Rightarrow> rat \<Rightarrow> rat" where
  "maxSize isVertical targetW targetH = (if isVertical then min 40 targetH else min 40 targetW)"

definition rootFontSize :: rat where
  "rootFontSize = 16"

record fit =
  fontSizePx :: rat
  finalRem :: rat
  shouldScroll :: bool

definition fitSolver :: "rat \<Rightarrow> rat \<Rightarrow> nat \<Rightarrow> bool \<Rightarrow> fit" where
  "fitSolver width height charCount isVertical =
     (let targetW = target width;
          targetH = target height;
          final = the (searchLoop isVertical targetW targetH charCount
                    \<lparr>low = minSize, high = maxSize isVertical targetW targetH, bestSize = 12\<rparr>)
      in \<lparr>fontSizePx = bestSize final,
          finalRem = rd (bestSize final / rootFontSize),
          shouldScroll = (bestSize final = 12
                          \<and> \<not> checkFits isVertical 12 targetW targetH charCount)\<rparr>)"

subsection \<open>The bounding box in display coordinates (App.tsx, lines 257 to 263)\<close>

text \<open>
  \<open>v.x || 0\<close> replaces a falsy coordinate by \<open>0\<close>; among the numbers of the model
  the only falsy one is \<open>0\<close> itself.
\<close>

definition orZero :: "rat \<Rightarrow> rat" where
  "orZero v = (if v = 0 then 0 else v)"

text \<open>
  \<open>Math.min(...xs)\<close> and \<open>Math.max(...xs)\<close>. On the empty list JavaScript returns
  an infinity, which the model does not have, and \<^term>\<open>Min {}\<close> is unspecified in HOL:
  nothing is proved about that case. The callback reaches these calls only behind the guard
  \<open>vertices.length < 4\<close>.
\<close>

definition mathMin :: "rat list \<Rightarrow> rat" where
  "mathMin xs = Min (set xs)"

definition mathMax :: "rat list \<Rightarrow> rat" where
  "mathMax xs = Max (set xs)"

record rect =
  rect_x :: rat
  rect_y :: rat
  rect_width :: rat
  rect_height :: rat

definition displayRect :: "vertex list \<Rightarrow> nat \<Rightarrow> nat \<Rightarrow> rect" where
  "displayRect vs containerWidth containerHeight =
     \<lparr>rect_x = mathMin (map (\<lambda>v. orZero (vx v)) vs) * rat_of_nat containerWidth / 1000,
      rect_y = mathMin (map (\<lambda>v. orZero (vy v)) vs) * rat_of_nat containerHeight / 1000,
      rect_width = (mathMax (map (\<lambda>v. orZero (vx v)) vs) - mathMin (map (\<lambda>v. orZero (vx v)) vs))
                     * rat_of_nat containerWidth / 1000,
      rect_height = (mathMax (map (\<lambda>v. orZero (vy v)) vs) - mathMin (map (\<lambda>v. orZero (vy v)) vs))
                     * rat_of_nat containerHeight / 1000\<rparr>"

subsection \<open>The overlay element (App.tsx, lines 252 to 352)\<close>

datatype flex_direction = row_reverse | column
datatype justify_content = flex_start | center
datatype writing_mode = vertical_rl | horizontal_tb
datatype overflow_mode = overflow_auto | overflow_hidden

text \<open>The element that the callback returns: its \<open>key\<close>, its animation delay, the
  fields of its \<open>style\<close> that the callback computes, its \<open>title\<close> and its content.\<close>

record overlay =
  overlayKey :: nat
  transitionDelay :: rat
  styleLeft :: rat
  styleTop :: rat
  styleWidth :: rat
  styleHeight :: rat
  flexDirection :: flex_direction
  justifyContent :: justify_content
  stylePadding :: nat
  fontSizeRem :: rat
  writingMode :: writing_mode
  overflowY :: overflow_mode
  overflowX :: overflow_mode
  title :: js_string
  content :: js_string

text \<open>\<open>block.translatedText.length || 1\<close>\<close>

definition charCountOf :: "translatedBlock \<Rightarrow> nat" where
  "charCountOf block =
     (if length (translatedText block) = 0 then 1 else length (translatedText block))"

text \<open>
  The callback of \<open>translatedBlocks.map\<close>; \<open>None\<close> is its \<open>return null\<close>. The type
  of \<open>vertices\<close> is an array, so the test \<open>!vertices\<close> is false.
\<close>

definition renderBlock :: "nat \<Rightarrow> nat \<Rightarrow> translatedBlock \<Rightarrow> nat \<Rightarrow> overlay option" where
  "renderBlock containerWidth containerHeight block idx =
     (let vs = vertices (boundingBox block)
      in if length vs < 4 then None
         else
           (let r = displayRect vs containerWidth containerHeight;
                charCount = charCountOf block;
                isVertical = (orientation block = vertical);
                f = fitSolver (rect_width r) (rect_height r) charCount isVertical
            in Some
                 \<lparr>overlayKey = idx,
                  transitionDelay = rat_of_nat idx * (2 / 100),
                  styleLeft = rect_x r,
                  styleTop = rect_y r,
                  styleWidth = rect_width r,
                  styleHeight = rect_height r,
                  flexDirection = (if isVertical then row_reverse else column),
                  justifyContent = (if shouldScroll f then flex_start else center),
                  stylePadding = (if rect_width r < 20 \<or> rect_height r < 20 then 0 else 2),
                  fontSizeRem = finalRem f,
                  writingMode = (if isVertical then vertical_rl else horizontal_tb),
                  overflowY = (if \<not> isVertical \<and> shouldScroll f then overflow_auto
                               else overflow_hidden),
                  overflowX = (if isVertical \<and> shouldScroll f then overflow_auto
                               else overflow_hidden),
                  title = blockText block,
                  content = translatedText block\<rparr>))"

subsection \<open>The component state and the list of overlays\<close>

record image_element =
  clientWidth :: nat
  clientHeight :: nat

text \<open>The state of \<open>App\<close> (lines 7 to 18, 52 and 108); \<open>imageRef\<close> is \<open>None\<close> while
  \<open>imageRef.current\<close> is \<open>null\<close>.\<close>

record app_state =
  appImage :: "js_string option"
  isProcessing :: bool
  status :: js_string
  translatedBlocks :: "translatedBlock list"
  imageSize :: "nat \<times> nat"
  appError :: "js_string option"
  processingTime :: "rat option"
  elapsedSeconds :: nat
  isSettingsOpen :: bool
  apiKey :: js_string
  displayScale :: rat
  imageRef :: "image_element option"

text \<open>\<open>imageRef.current?.clientWidth || 0\<close> and \<open>imageRef.current?.clientHeight || 0\<close>\<close>

definition containerWidthOf :: "app_state \<Rightarrow> nat" where
  "containerWidthOf s = (case imageRef s of None \<Rightarrow> 0 | Some el \<Rightarrow> clientWidth el)"

definition containerHeightOf :: "app_state \<Rightarrow> nat" where
  "containerHeightOf s = (case imageRef s of None \<Rightarrow> 0 | Some el \<Rightarrow> clientHeight el)"

text \<open>The array that \<open>translatedBlocks.map\<close> returns, one entry for each block.\<close>

definition mapBlocks :: "nat \<Rightarrow> nat \<Rightarrow> translatedBlock list \<Rightarrow> overlay option list" where
  "mapBlocks containerWidth containerHeight blocks =
     map (\<lambda>(idx, block). renderBlock containerWidth containerHeight block idx)
       (enumerate 0 blocks)"

text \<open>React renders no element for \<open>null\<close>: the overlays on the page are the entries
  that are not \<open>null\<close>, in the order of the array.\<close>

definition composeOverlays :: "nat \<Rightarrow> nat \<Rightarrow> translatedBlock list \<Rightarrow> overlay list" where
  "composeOverlays containerWidth containerHeight blocks =
     List.map_filter id (mapBlocks containerWidth containerHeight blocks)"

definition textOverlays :: "app_state \<Rightarrow> overlay list" where
  "textOverlays s = composeOverlays (containerWidthOf s) (containerHeightOf s) (translatedBlocks s)"

subsection \<open>Notions of the spec used in the statements\<close>

text \<open>
  A detection is degenerate when its quadrilateral has fewer than four vertices. The spec's
  overlay descriptor has no \<open>key\<close> and no animation delay, the two fields that the
  callback derives from the array index: \<open>descriptorOf\<close> blanks them. \<open>fitFields\<close>
  are the fields of an overlay that the callback computes from the solver's result.
\<close>

definition degenerate :: "translatedBlock \<Rightarrow> bool" where
  "degenerate b = (length (vertices (boundingBox b)) < 4)"

definition descriptorOf :: "overlay \<Rightarrow> overlay" where
  "descriptorOf ov = ov\<lparr>overlayKey := 0, transitionDelay := 0\<rparr>"

definition fitFields :: "overlay \<Rightarrow> rat \<times> justify_content \<times> overflow_mode \<times> overflow_mode" where
  "fitFields ov = (fontSizeRem ov, justifyContent ov, overflowY ov, overflowX ov)"

subsection \<open>The block adapter (visionService.ts, lines 62 to 73)\<close>

text \<open>
  \<open>rawBlocks\<close> is the result of \<open>JSON.parse\<close>, of type \<open>any\<close>. The model keeps the
  \<open>orientation\<close> of a raw block as a JavaScript value of any kind, since the adapter
  compares it with \<open>===\<close>. It takes \<open>text\<close> and \<open>translatedText\<close> as strings and
  \<open>box_2d\<close> as its four numbers \<open>[ymin, xmin, ymax, xmax]\<close>, as the response schema asks.
\<close>

datatype js_value = JSUndefined | JSNull | JSBool bool | JSNum rat | JSStr js_string

record rawBlock =
  raw_text :: js_string
  raw_translatedText :: js_string
  raw_orientation :: js_value
  raw_box_2d :: "rat \<times> rat \<times> rat \<times> rat"

definition formatBlock :: "rawBlock \<Rightarrow> translatedBlock" where
  "formatBlock b =
     (case raw_box_2d b of (ymin, xmin, ymax, xmax) \<Rightarrow>
        \<lparr>blockText = raw_text b,
         boundingBox = \<lparr>vertices = [\<lparr>vx = xmin, vy = ymin\<rparr>, \<lparr>vx = xmax, vy = ymin\<rparr>,
                                     \<lparr>vx = xmax, vy = ymax\<rparr>, \<lparr>vx = xmin, vy = ymax\<rparr>]\<rparr>,
         translatedText = raw_translatedText b,
         orientation = (if raw_orientation b = JSStr (utf16 ''vertical'')
                        then vertical else horizontal)\<rparr>)"

definition formattedBlocks :: "rawBlock list \<Rightarrow> translatedBlock list" where
  "formattedBlocks rawBlocks = map formatBlock rawBlocks"

subsection \<open>Notions used in the statements and in the proofs about the solver\<close>

text \<open>
  None of the following is code. \<open>noSizeFits\<close> is the spec's "no font size in the
  search range satisfies the fit predicate", for the doubles from \<open>lo\<close> to \<open>hi\<close>.
  \<open>startState\<close> is the state in which the solver enters the loop, \<open>midpoint\<close> the
  probe of a pass, and \<open>solverState\<close> the invariant of the loop: both bounds are
  doubles, \<open>low\<close> is at least 12 and \<open>high\<close> at most 40. \<open>searchResult\<close> is the
  state in which the loop ends. \<open>neededExtent\<close> is the extent that \<open>checkFits\<close>
  compares with the rectangle, \<open>ulp47\<close> bounds the rounding error of a number below 128, and
  \<open>searchMeasure\<close> decreases with each pass. \<open>passState w h c v j\<close> is the state
  of the solver's loop after \<open>j\<close> passes. \<open>reachState\<close> is a second invariant of the
  loop, which the states of the solver satisfy: either \<open>high + 0.5\<close> is a double, or
  \<open>high\<close> is still the ceiling and the gap from \<open>low\<close> to \<open>high\<close> is one of those
  that the search passes through from a ceiling between 15.5 and 16 or between 31.5 and 32
  (\<open>gapOK\<close>); it excludes \<open>low = high\<close> at a value whose sum with 0.5 is rounded.
\<close>

definition noSizeFits :: "bool \<Rightarrow> rat \<Rightarrow> rat \<Rightarrow> nat \<Rightarrow> rat \<Rightarrow> rat \<Rightarrow> bool" where
  "noSizeFits v W H c lo hi = (\<forall>s. is_double s \<and> lo \<le> s \<and> s \<le> hi \<longrightarrow> \<not> checkFits v s W H c)"

definition startState :: "bool \<Rightarrow> rat \<Rightarrow> rat \<Rightarrow> search_state" where
  "startState v W H = \<lparr>low = minSize, high = maxSize v W H, bestSize = 12\<rparr>"

definition midpoint :: "search_state \<Rightarrow> rat" where
  "midpoint s = rd (rd (low s + high s) / 2)"

definition solverState :: "search_state \<Rightarrow> bool" where
  "solverState s = (is_double (low s) \<and> is_double (high s) \<and> 12 \<le> low s \<and> high s \<le> 40)"

definition searchResult :: "bool \<Rightarrow> rat \<Rightarrow> rat \<Rightarrow> nat \<Rightarrow> search_state \<Rightarrow> search_state" where
  "searchResult v W H c s = the (searchLoop v W H c s)"

definition neededExtent :: "rat \<Rightarrow> rat \<Rightarrow> nat \<Rightarrow> rat" where
  "neededExtent s A c =
     rd (rd (rat_of_int \<lceil>rd (rat_of_nat c
              / rat_of_int (max \<lfloor>rd (A / rd (s * rd (105 / 100)))\<rfloor> 1))\<rceil> * s) * rd (12 / 10))"

definition ulp47 :: rat where
  "ulp47 = 1 / 2 ^ 47"

definition searchMeasure :: "search_state \<Rightarrow> nat" where
  "searchMeasure s = nat \<lfloor>4 * (high s - low s + 1)\<rfloor>"

definition passState :: "rat \<Rightarrow> rat \<Rightarrow> nat \<Rightarrow> bool \<Rightarrow> nat \<Rightarrow> search_state" where
  "passState width height charCount isVertical j =
     (searchStep isVertical (target width) (target height) charCount ^^ j)
       (startState isVertical (target width) (target height))"

definition gapOK :: "rat \<Rightarrow> bool" where
  "gapOK g = (g < 0 \<or> (1 / 10 \<le> g \<and> g \<le> 4 / 10) \<or> (121 / 100 \<le> g \<and> g \<le> 17 / 10)
              \<or> (35 / 10 \<le> g \<and> g \<le> 43 / 10) \<or> (92 / 10 \<le> g \<and> g \<le> 955 / 100)
              \<or> (195 / 10 \<le> g \<and> g \<le> 20))"

definition reachState :: "search_state \<Rightarrow> bool" where
  "reachState s = (solverState s \<and> (is_double (high s + 1 / 2) \<or> gapOK (high s - low s)))"

section \<open>Properties of the rounding\<close>

subsection \<open>Rounding to an integer\<close>

lemma rhe_cases:
  "roundHalfEven y = \<lfloor>y\<rfloor> \<or> roundHalfEven y = \<lfloor>y\<rfloor> + 1"
  by (simp add: roundHalfEven_def Let_def)

lemma rhe_error: "\<bar>rat_of_int (roundHalfEven y) - y\<bar> \<le> 1 / 2"
proof -
  have "rat_of_int \<lfloor>y\<rfloor> \<le> y" "y < rat_of_int \<lfloor>y\<rfloor> + 1" by linarith+
  then show ?thesis
    by (auto simp: roundHalfEven_def Let_def abs_le_iff)
qed

lemma rhe_of_int [simp]: "roundHalfEven (rat_of_int n) = n"
  by (simp add: roundHalfEven_def Let_def)

lemma rhe_mono: assumes "y \<le> z" shows "roundHalfEven y \<le> roundHalfEven z"
proof (cases "\<lfloor>y\<rfloor> = \<lfloor>z\<rfloor>")
  case True
  with assms show ?thesis
    by (auto simp: roundHalfEven_def Let_def)
next
  case False
  with assms have "\<lfloor>y\<rfloor> < \<lfloor>z\<rfloor>" using floor_mono [of y z] by linarith
  moreover have "roundHalfEven y \<le> \<lfloor>y\<rfloor> + 1" using rhe_cases [of y] by linarith
  moreover have "\<lfloor>z\<rfloor> \<le> roundHalfEven z" using rhe_cases [of z] by linarith
  ultimately show ?thesis by linarith
qed

lemma rhe_le: "y \<le> rat_of_int n \<Longrightarrow> roundHalfEven y \<le> n"
  using rhe_mono [of y "rat_of_int n"] by simp

lemma rhe_ge: "rat_of_int n \<le> y \<Longrightarrow> n \<le> roundHalfEven y"
  using rhe_mono [of "rat_of_int n" y] by simp

lemma rhe_minus: "roundHalfEven (- y) = - roundHalfEven y"
proof (cases "y \<in> \<int>")
  case True
  then obtain n where "y = rat_of_int n" by (auto elim: Ints_cases)
  then have "- y = rat_of_int (- n)" by simp
  then show ?thesis using \<open>y = rat_of_int n\<close> by (simp only: rhe_of_int)
next
  case False
  then have ne: "y \<noteq> rat_of_int \<lfloor>y\<rfloor>" by (metis Ints_of_int)
  define f where "f = \<lfloor>y\<rfloor>"
  define r where "r = y - rat_of_int f"
  have r: "0 < r" "r < 1" using ne unfolding r_def f_def by linarith+
  have fl: "\<lfloor>- y\<rfloor> = - f - 1" unfolding f_def using ne by linarith
  have r': "- y - rat_of_int (- f - 1) = 1 - r" by (simp add: r_def)
  have ev: "even (- f - 1) = odd f" by simp
  have A: "roundHalfEven y = (if r < 1 / 2 then f else if 1 / 2 < r then f + 1 else if even f then f else f + 1)"
    by (simp add: roundHalfEven_def Let_def f_def r_def)
  have B: "roundHalfEven (- y) = (if 1 - r < 1 / 2 then - f - 1 else if 1 / 2 < 1 - r then - f else if odd f then - f - 1 else - f)"
    unfolding roundHalfEven_def Let_def fl r' ev by simp
  show ?thesis
  proof (cases "r < 1 / 2")
    case True
    then show ?thesis unfolding A B by simp
  next
    case False
    show ?thesis
    proof (cases "1 / 2 < r")
      case True
      then show ?thesis unfolding A B by simp
    next
      case F2: False
      with False have "r = 1 / 2" by simp
      then show ?thesis unfolding A B by simp
    qed
  qed
qed

subsection \<open>The binary exponent\<close>

lemma ilog2_bounds: "0 < n \<Longrightarrow> 2 ^ ilog2 n \<le> n \<and> n < 2 ^ Suc (ilog2 n)"
proof (induction n rule: ilog2.induct)
  case (1 n)
  show ?case
  proof (cases "n < 2")
    case True
    with "1.prems" have "n = 1" by simp
    then show ?thesis by (simp add: ilog2.simps)
  next
    case False
    then have pos: "0 < n div 2" by simp
    have IH: "2 ^ ilog2 (n div 2) \<le> n div 2" "n div 2 < 2 ^ Suc (ilog2 (n div 2))"
      using "1.IH" [OF False pos] by simp_all
    have eq: "ilog2 n = Suc (ilog2 (n div 2))"
      using False by (subst ilog2.simps) simp
    have a: "2 * (n div 2) \<le> n" "n < 2 * (n div 2) + 2" by presburger+
    from IH a show ?thesis unfolding eq by simp
  qed
qed

lemma ilog2_bounds_rat:
  assumes "0 < n"
  shows "(2::rat) ^ ilog2 n \<le> rat_of_nat n" and "rat_of_nat n + 1 \<le> 2 ^ Suc (ilog2 n)"
proof -
  have b: "2 ^ ilog2 n \<le> n" "n + 1 \<le> 2 ^ Suc (ilog2 n)"
    using ilog2_bounds [OF assms] by simp_all
  have "rat_of_nat (2 ^ ilog2 n) \<le> rat_of_nat n" using b(1) by (simp only: of_nat_le_iff)
  then show "(2::rat) ^ ilog2 n \<le> rat_of_nat n" by simp
  have "rat_of_nat (n + 1) \<le> rat_of_nat (2 ^ Suc (ilog2 n))" using b(2) by (simp only: of_nat_le_iff)
  then show "rat_of_nat n + 1 \<le> 2 ^ Suc (ilog2 n)" by simp
qed

lemma powi_Suc_nat: "(2::rat) powi (int k + 1) = 2 ^ Suc k"
proof -
  have "int k + 1 = int (Suc k)" by simp
  then show ?thesis by (simp only: power_int_of_nat)
qed

lemma flog2_bounds:
  assumes "0 < x"
  shows "2 powi flog2 x \<le> x" and "x < 2 powi (flog2 x + 1)"
proof -
  have "2 powi flog2 x \<le> x \<and> x < 2 powi (flog2 x + 1)"
  proof (cases "1 \<le> x")
    case True
    define n where "n = nat \<lfloor>x\<rfloor>"
    have fx: "1 \<le> \<lfloor>x\<rfloor>" using True by simp
    have n1: "0 < n" using fx by (simp add: n_def)
    have "rat_of_nat n = rat_of_int \<lfloor>x\<rfloor>" using fx unfolding n_def by simp
    then have nx: "rat_of_nat n \<le> x" "x < rat_of_nat n + 1" by linarith+
    have fl: "flog2 x = int (ilog2 n)" using True by (simp add: flog2_def n_def)
    from ilog2_bounds_rat [OF n1] nx show ?thesis
      unfolding fl powi_Suc_nat by (simp only: power_int_of_nat) linarith
  next
    case False
    define y where "y = 1 / x"
    have y1: "1 < y" using assms False by (simp add: y_def)
    define n where "n = nat \<lceil>y\<rceil>"
    have cy: "2 \<le> \<lceil>y\<rceil>" using y1 by linarith
    have n2: "2 \<le> n" using cy unfolding n_def by linarith
    define m where "m = n - 1"
    have m1: "0 < m" using n2 by (simp add: m_def)
    have fl: "flog2 x = - int (Suc (ilog2 m))"
      using False by (simp add: flog2_def n_def m_def y_def)
    have "rat_of_nat n = rat_of_int \<lceil>y\<rceil>" using cy unfolding n_def by simp
    then have yn: "y \<le> rat_of_nat n" "rat_of_nat n - 1 < y" by linarith+
    have mn: "rat_of_nat m = rat_of_nat n - 1" using n2 by (simp add: m_def)
    from ilog2_bounds_rat [OF m1] mn yn
    have up: "y \<le> 2 ^ Suc (ilog2 m)" and lo: "2 ^ ilog2 m < y" by linarith+
    have p1: "(2::rat) powi (- int (Suc (ilog2 m))) = 1 / 2 ^ Suc (ilog2 m)"
      by (simp only: power_int_minus_divide power_int_of_nat)
    have "- int (Suc (ilog2 m)) + 1 = - int (ilog2 m)" by simp
    then have p2: "(2::rat) powi (- int (Suc (ilog2 m)) + 1) = 1 / 2 ^ ilog2 m"
      by (simp only: power_int_minus_divide power_int_of_nat)
    have xy: "x = 1 / y" using assms by (simp add: y_def)
    have "1 / 2 ^ Suc (ilog2 m) \<le> 1 / y"
      using up y1 by (intro divide_left_mono) auto
    then have A: "1 / 2 ^ Suc (ilog2 m) \<le> x" by (simp only: xy)
    have "1 / y < 1 / 2 ^ ilog2 m"
      using lo y1 by (intro divide_strict_left_mono) auto
    then have B: "x < 1 / 2 ^ ilog2 m" by (simp only: xy)
    from A B show ?thesis unfolding fl p1 p2 by (rule conjI)
  qed
  then show "2 powi flog2 x \<le> x" and "x < 2 powi (flog2 x + 1)" by simp_all
qed

lemma powi_less_imp: "(2::rat) powi a < 2 powi b \<Longrightarrow> a < b"
  by (metis linorder_not_less one_le_numeral power_int_increasing)

lemma powi_mono2: "a \<le> b \<Longrightarrow> (2::rat) powi a \<le> 2 powi b"
  by (simp add: power_int_increasing)

lemma flog2_unique:
  assumes "2 powi k \<le> x" "x < 2 powi (k + 1)"
  shows "flog2 x = k"
proof -
  have "0 < (2::rat) powi k" by simp
  with assms(1) have pos: "0 < x" by linarith
  have "2 powi flog2 x < (2::rat) powi (k + 1)"
    using flog2_bounds(1) [OF pos] assms(2) by linarith
  then have a: "flog2 x < k + 1" by (rule powi_less_imp)
  have "(2::rat) powi k < 2 powi (flog2 x + 1)"
    using flog2_bounds(2) [OF pos] assms(1) by linarith
  then have "k < flog2 x + 1" by (rule powi_less_imp)
  with a show ?thesis by linarith
qed

lemma flog2_mono: assumes "0 < x" "x \<le> y" shows "flog2 x \<le> flog2 y"
proof -
  have "2 powi flog2 x < (2::rat) powi (flog2 y + 1)"
    using flog2_bounds(1) [OF assms(1)] flog2_bounds(2) [of y] assms by linarith
  then have "flog2 x < flog2 y + 1" by (rule powi_less_imp)
  then show ?thesis by linarith
qed

subsection \<open>Rounding to a double\<close>

lemma ulpExp_minus [simp]: "ulpExp (- x) = ulpExp x"
  by (simp add: ulpExp_def)

lemma ulpExp_ge: "- 1074 \<le> ulpExp x" "flog2 \<bar>x\<bar> - 52 \<le> ulpExp x"
  by (simp_all add: ulpExp_def)

lemma rd_0 [simp]: "rd 0 = 0"
  by (simp add: rd_def)

lemma rd_minus: "rd (- x) = - rd x"
proof -
  have "- x / 2 powi ulpExp x = - (x / 2 powi ulpExp x)" by simp
  then show ?thesis by (simp add: rd_def rhe_minus)
qed

lemma powi_pos [simp]: "0 < (2::rat) powi e"
  by simp

lemma rd_le_gridpoint:
  assumes "x \<noteq> 0" "x \<le> rat_of_int k * 2 powi ulpExp x"
  shows "rd x \<le> rat_of_int k * 2 powi ulpExp x"
proof -
  have "x / 2 powi ulpExp x \<le> rat_of_int k"
    using assms(2) by (simp add: pos_divide_le_eq)
  then have "roundHalfEven (x / 2 powi ulpExp x) \<le> k" by (rule rhe_le)
  then have "rat_of_int (roundHalfEven (x / 2 powi ulpExp x)) \<le> rat_of_int k" by simp
  then have "rat_of_int (roundHalfEven (x / 2 powi ulpExp x)) * 2 powi ulpExp x
             \<le> rat_of_int k * 2 powi ulpExp x"
    by (rule mult_right_mono) simp
  with assms(1) show ?thesis by (simp add: rd_def)
qed

lemma rd_ge_gridpoint:
  assumes "x \<noteq> 0" "rat_of_int k * 2 powi ulpExp x \<le> x"
  shows "rat_of_int k * 2 powi ulpExp x \<le> rd x"
proof -
  have "rat_of_int k \<le> x / 2 powi ulpExp x"
    using assms(2) by (simp add: pos_le_divide_eq)
  then have "k \<le> roundHalfEven (x / 2 powi ulpExp x)" by (rule rhe_ge)
  then have "rat_of_int k \<le> rat_of_int (roundHalfEven (x / 2 powi ulpExp x))" by simp
  then have "rat_of_int k * 2 powi ulpExp x
             \<le> rat_of_int (roundHalfEven (x / 2 powi ulpExp x)) * 2 powi ulpExp x"
    by (rule mult_right_mono) simp
  with assms(1) show ?thesis by (simp add: rd_def)
qed

lemma rd_nonneg: assumes "0 \<le> x" shows "0 \<le> rd x"
proof (cases "x = 0")
  case True then show ?thesis by simp
next
  case False
  with assms rd_ge_gridpoint [of x 0] show ?thesis by simp
qed

lemma powi_split: "(2::rat) powi (a + b) = 2 powi a * 2 powi b"
  by (simp add: power_int_add)

lemma powi_nat: "0 \<le> a \<Longrightarrow> (2::rat) powi a = rat_of_int (2 ^ nat a)"
  by (simp add: power_int_nonneg_exp)

lemma abs_below_binade:
  assumes "x \<noteq> 0"
  shows "\<bar>x\<bar> < 2 ^ 53 * 2 powi ulpExp x"
proof -
  have pos: "0 < \<bar>x\<bar>" using assms by simp
  have "\<bar>x\<bar> < 2 powi (flog2 \<bar>x\<bar> + 1)" by (rule flog2_bounds(2) [OF pos])
  also have "\<dots> \<le> 2 powi (53 + ulpExp x)"
    using ulpExp_ge(2) [of x] by (intro powi_mono2) linarith
  also have "\<dots> = 2 ^ 53 * 2 powi ulpExp x"
    by (simp only: powi_split) simp
  finally show ?thesis .
qed

lemma rd_fixI:
  assumes m: "\<bar>m\<bar> < 2 ^ 53" and e: "- 1074 \<le> e"
  shows "rd (rat_of_int m * 2 powi e) = rat_of_int m * 2 powi e"
proof (cases "m = 0")
  case True then show ?thesis by simp
next
  case False
  define x where "x = rat_of_int m * 2 powi e"
  have x0: "x \<noteq> 0" using False by (simp add: x_def)
  have absx: "\<bar>x\<bar> = rat_of_int \<bar>m\<bar> * 2 powi e" by (simp add: x_def abs_mult)
  have "rat_of_int \<bar>m\<bar> < rat_of_int (2 ^ 53)" using m by (simp only: of_int_less_iff)
  then have "rat_of_int \<bar>m\<bar> * 2 powi e < 2 ^ 53 * 2 powi e"
    by (intro mult_strict_right_mono) simp_all
  also have "\<dots> = 2 powi (53 + e)" by (simp only: powi_split) simp
  finally have up: "\<bar>x\<bar> < 2 powi (53 + e)" by (simp only: absx)
  have pos: "0 < \<bar>x\<bar>" using x0 by simp
  have "2 powi flog2 \<bar>x\<bar> < (2::rat) powi (53 + e)"
    using flog2_bounds(1) [OF pos] up by linarith
  then have "flog2 \<bar>x\<bar> < 53 + e" by (rule powi_less_imp)
  with e have ue: "ulpExp x \<le> e" by (simp add: ulpExp_def)
  define p where "p = (2::rat) powi ulpExp x"
  have p0: "0 < p" by (simp add: p_def)
  define d where "d = e - ulpExp x"
  have d0: "0 \<le> d" using ue by (simp add: d_def)
  have "(2::rat) powi e = 2 powi (d + ulpExp x)" by (simp add: d_def)
  also have "\<dots> = rat_of_int (2 ^ nat d) * p"
    by (simp only: powi_split powi_nat [OF d0] p_def)
  finally have pe: "(2::rat) powi e = rat_of_int (2 ^ nat d) * p" .
  have xk: "x = rat_of_int (m * 2 ^ nat d) * p"
    by (simp add: x_def pe)
  have "x / p = rat_of_int (m * 2 ^ nat d)"
    using p0 by (subst xk) simp
  then have "roundHalfEven (x / p) = m * 2 ^ nat d"
    by (simp only: rhe_of_int)
  then have "rd x = rat_of_int (m * 2 ^ nat d) * p"
    using x0 by (simp add: rd_def p_def)
  then have "rd x = x" using xk by simp
  then show ?thesis by (simp only: x_def)
qed

lemma rd_repr: "\<exists>m e. \<bar>m\<bar> < 2 ^ 53 \<and> - 1074 \<le> e \<and> rd x = rat_of_int m * 2 powi e"
proof (cases "x = 0")
  case True
  have "\<bar>0::int\<bar> < 2 ^ 53 \<and> - 1074 \<le> (0::int) \<and> rd x = rat_of_int 0 * 2 powi 0"
    using True by simp
  then show ?thesis by blast
next
  case False
  define u where "u = ulpExp x"
  define n where "n = roundHalfEven (x / 2 powi u)"
  have rdx: "rd x = rat_of_int n * 2 powi u" using False by (simp add: rd_def n_def u_def)
  have b: "\<bar>x\<bar> < 2 ^ 53 * 2 powi u" unfolding u_def by (rule abs_below_binade [OF False])
  have "\<bar>x / 2 powi u\<bar> = \<bar>x\<bar> / 2 powi u" by (simp add: abs_divide)
  also have "\<dots> < 2 ^ 53" using b by (simp add: pos_divide_less_eq)
  finally have "\<bar>x / 2 powi u\<bar> < 2 ^ 53" .
  then have "x / 2 powi u \<le> 2 ^ 53" "- (2 ^ 53) \<le> x / 2 powi u"
    by linarith+
  then have q: "x / 2 powi u \<le> rat_of_int (2 ^ 53)" "rat_of_int (- (2 ^ 53)) \<le> x / 2 powi u"
    by simp_all
  have nb: "n \<le> 2 ^ 53" "- (2 ^ 53) \<le> n"
    unfolding n_def using rhe_le [OF q(1)] rhe_ge [OF q(2)] by simp_all
  have u1074: "- 1074 \<le> u" unfolding u_def by (rule ulpExp_ge)
  show ?thesis
  proof (cases "\<bar>n\<bar> < 2 ^ 53")
    case True
    with u1074 rdx show ?thesis by blast
  next
    case False
    with nb have "n = 2 ^ 53 \<or> n = - (2 ^ 53)" by linarith
    then have "rd x = rat_of_int (n div 2) * 2 powi (u + 1) \<and> \<bar>n div 2\<bar> < 2 ^ 53"
      unfolding rdx by (auto simp: powi_split)
    moreover have "- 1074 \<le> u + 1" using u1074 by simp
    ultimately show ?thesis by blast
  qed
qed

lemma is_double_iff:
  "is_double x = (\<exists>m e. \<bar>m\<bar> < 2 ^ 53 \<and> - 1074 \<le> e \<and> x = rat_of_int m * 2 powi e)"
proof
  assume "is_double x"
  then have "rd x = x" by (simp add: is_double_def)
  with rd_repr [of x] show "\<exists>m e. \<bar>m\<bar> < 2 ^ 53 \<and> - 1074 \<le> e \<and> x = rat_of_int m * 2 powi e"
    by simp
next
  assume "\<exists>m e. \<bar>m\<bar> < 2 ^ 53 \<and> - 1074 \<le> e \<and> x = rat_of_int m * 2 powi e"
  then show "is_double x" unfolding is_double_def using rd_fixI by blast
qed

lemma is_double_rd [simp]: "is_double (rd x)"
  unfolding is_double_iff by (rule rd_repr)

lemma rd_double: "is_double x \<Longrightarrow> rd x = x"
  by (simp add: is_double_def)

lemma rd_mono_pos:
  assumes x: "0 < x" and xy: "x \<le> y"
  shows "rd x \<le> rd y"
proof -
  have y: "0 < y" using x xy by linarith
  have x0: "x \<noteq> 0" and y0: "y \<noteq> 0" using x y by simp_all
  have fm: "flog2 x \<le> flog2 y" by (rule flog2_mono [OF x xy])
  have ux: "ulpExp x = max (flog2 x - 52) (- 1074)" using x by (simp add: ulpExp_def)
  have uy: "ulpExp y = max (flog2 y - 52) (- 1074)" using y by (simp add: ulpExp_def)
  have le: "ulpExp x \<le> ulpExp y" unfolding ux uy using fm by simp
  show ?thesis
  proof (cases "ulpExp x = ulpExp y")
    case True
    have "x / 2 powi ulpExp y \<le> y / 2 powi ulpExp y"
      using xy by (intro divide_right_mono) simp_all
    then have "roundHalfEven (x / 2 powi ulpExp y) \<le> roundHalfEven (y / 2 powi ulpExp y)"
      by (rule rhe_mono)
    then have "rat_of_int (roundHalfEven (x / 2 powi ulpExp y)) * 2 powi ulpExp y
               \<le> rat_of_int (roundHalfEven (y / 2 powi ulpExp y)) * 2 powi ulpExp y"
      by (intro mult_right_mono) simp_all
    then show ?thesis using x0 y0 True by (simp add: rd_def)
  next
    case False
    with le have lt: "ulpExp x < ulpExp y" by simp
    have uy': "ulpExp y = flog2 y - 52" using lt ulpExp_ge(1) [of x] unfolding uy by linarith
    have fx: "flog2 x - 52 \<le> ulpExp x" unfolding ux by simp
    define B where "B = (2::rat) powi flog2 y"
    have "(2::rat) powi flog2 y = 2 powi (52 + ulpExp y)" unfolding uy' by simp
    also have "\<dots> = rat_of_int (2 ^ 52) * 2 powi ulpExp y" by (simp only: powi_split) simp
    finally have By: "B = rat_of_int (2 ^ 52) * 2 powi ulpExp y" by (simp only: B_def)
    have "B \<le> y" unfolding B_def by (rule flog2_bounds(1) [OF y])
    then have "rat_of_int (2 ^ 52) * 2 powi ulpExp y \<le> rd y"
      unfolding By by (rule rd_ge_gridpoint [OF y0])
    then have 1: "B \<le> rd y" by (simp only: By)
    define d where "d = flog2 y - ulpExp x"
    have d0: "0 \<le> d" using lt uy' by (simp add: d_def)
    have "(2::rat) powi flog2 y = 2 powi (d + ulpExp x)" by (simp add: d_def)
    also have "\<dots> = rat_of_int (2 ^ nat d) * 2 powi ulpExp x"
      by (simp only: powi_split powi_nat [OF d0])
    finally have Bx: "B = rat_of_int (2 ^ nat d) * 2 powi ulpExp x" by (simp only: B_def)
    have "x < 2 powi (flog2 x + 1)" by (rule flog2_bounds(2) [OF x])
    also have "\<dots> \<le> B" unfolding B_def using lt uy' fx by (intro powi_mono2) linarith
    finally have "x \<le> B" by simp
    then have "rd x \<le> rat_of_int (2 ^ nat d) * 2 powi ulpExp x"
      unfolding Bx by (rule rd_le_gridpoint [OF x0])
    then have 2: "rd x \<le> B" by (simp only: Bx)
    from 1 2 show ?thesis by linarith
  qed
qed

lemma rd_mono: assumes "x \<le> y" shows "rd x \<le> rd y"
proof -
  consider "0 < x" | "x \<le> 0" "0 \<le> y" | "y < 0" by linarith
  then show ?thesis
  proof cases
    case 1
    then show ?thesis using assms by (rule rd_mono_pos)
  next
    case 2
    have "rd x \<le> 0" using rd_nonneg [of "- x"] 2(1) by (simp add: rd_minus)
    moreover have "0 \<le> rd y" using 2(2) by (rule rd_nonneg)
    ultimately show ?thesis by linarith
  next
    case 3
    have "rd (- y) \<le> rd (- x)" using 3 assms by (intro rd_mono_pos) simp_all
    then show ?thesis by (simp add: rd_minus)
  qed
qed

lemma rd_idem [simp]: "rd (rd x) = rd x"
  using is_double_rd [of x] by (simp only: is_double_def)

lemma rd_le_double: "is_double d \<Longrightarrow> x \<le> d \<Longrightarrow> rd x \<le> d"
  using rd_mono [of x d] by (simp add: rd_double)

lemma rd_ge_double: "is_double d \<Longrightarrow> d \<le> x \<Longrightarrow> d \<le> rd x"
  using rd_mono [of d x] by (simp add: rd_double)

lemma rd_error:
  "\<bar>rd x - x\<bar> \<le> 2 powi ulpExp x / 2"
proof (cases "x = 0")
  case True then show ?thesis by simp
next
  case False
  define p where "p = (2::rat) powi ulpExp x"
  have p0: "0 < p" by (simp add: p_def)
  define n where "n = roundHalfEven (x / p)"
  have "rd x - x = (rat_of_int n - x / p) * p"
    using False p0 by (simp add: rd_def n_def p_def field_simps)
  then have "\<bar>rd x - x\<bar> = \<bar>rat_of_int n - x / p\<bar> * p"
    using p0 by (simp add: abs_mult)
  also have "\<dots> \<le> (1 / 2) * p"
    unfolding n_def using p0 rhe_error [of "x / p"] by (intro mult_right_mono) simp_all
  finally show ?thesis by (simp add: p_def)
qed

lemma rd_error_small:
  assumes "\<bar>x\<bar> < 128"
  shows "\<bar>rd x - x\<bar> \<le> 1 / 2 ^ 47"
proof (cases "x = 0")
  case True then show ?thesis by simp
next
  case False
  then have pos: "0 < \<bar>x\<bar>" by simp
  have "2 powi flog2 \<bar>x\<bar> < (2::rat) powi 7"
    using flog2_bounds(1) [OF pos] assms by simp
  then have "flog2 \<bar>x\<bar> < 7" by (rule powi_less_imp)
  then have "ulpExp x \<le> - 46" by (simp add: ulpExp_def)
  then have "(2::rat) powi ulpExp x \<le> 2 powi (- 46)" by (rule powi_mono2)
  then have "(2::rat) powi ulpExp x / 2 \<le> 2 powi (- 46) / 2" by simp
  also have "\<dots> = 1 / 2 ^ 47" by (simp add: power_int_minus_divide)
  finally show ?thesis using rd_error [of x] by linarith
qed

lemma is_double_int: "\<bar>n\<bar> < 2 ^ 53 \<Longrightarrow> is_double (rat_of_int n)"
  unfolding is_double_iff
  by (rule exI [of _ n], rule exI [of _ 0]) simp

lemma is_double_numeral_small [simp]:
  "is_double 12" "is_double 40" "is_double 1" "is_double 0"
  using is_double_int [of 12] is_double_int [of 40] is_double_int [of 1] is_double_int [of 0]
  by simp_all

lemma is_double_twice: assumes "is_double d" shows "is_double (2 * d)"
proof -
  from assms obtain m e where me: "\<bar>m\<bar> < 2 ^ 53" "- 1074 \<le> e" "d = rat_of_int m * 2 powi e"
    unfolding is_double_iff by blast
  have "2 * d = rat_of_int m * 2 powi (e + 1)"
    unfolding me(3) by (simp add: powi_split)
  moreover have "- 1074 \<le> e + 1" using me(2) by simp
  ultimately show ?thesis unfolding is_double_iff using me(1) by blast
qed

lemma is_double_minus_half:
  assumes d: "is_double d" and lo: "1 \<le> d" and hi: "d \<le> 2 ^ 52"
  shows "is_double (d - 1 / 2)"
proof -
  from d obtain m e where me: "\<bar>m\<bar> < 2 ^ 53" "- 1074 \<le> e" "d = rat_of_int m * 2 powi e"
    unfolding is_double_iff by blast
  have mpos: "0 < m"
  proof (rule ccontr)
    assume "\<not> 0 < m"
    then have "rat_of_int m \<le> 0" by simp
    then have "rat_of_int m * 2 powi e \<le> 0" by (simp add: mult_le_0_iff)
    with lo me(3) show False by simp
  qed
  show ?thesis
  proof (cases "0 \<le> e")
    case True
    define N where "N = m * 2 ^ nat e"
    have dN: "d = rat_of_int N" unfolding me(3) N_def by (simp add: powi_nat [OF True])
    have "rat_of_int N \<le> rat_of_int (2 ^ 52)" using hi dN by simp
    then have N52: "N \<le> 2 ^ 52" by (simp only: of_int_le_iff)
    have "rat_of_int 1 \<le> rat_of_int N" using lo dN by simp
    then have N1: "1 \<le> N" by (simp only: of_int_le_iff)
    have "d - 1 / 2 = rat_of_int (2 * N - 1) * 2 powi (- 1)"
      unfolding dN by (simp add: power_int_minus_divide field_simps)
    moreover have "\<bar>2 * N - 1\<bar> < 2 ^ 53" using N52 N1 by simp
    moreover have "- 1074 \<le> (- 1::int)" by simp
    ultimately show ?thesis unfolding is_double_iff by blast
  next
    case False
    define k where "k = nat (- e - 1)"
    have ek: "- e - 1 = int k" using False by (simp add: k_def)
    have "(1::rat) / 2 = 2 powi (- 1)" by (simp add: power_int_minus_divide)
    also have "\<dots> = 2 powi (int k + e)"
    proof -
      have "int k + e = - 1" using ek by linarith
      then show ?thesis by simp
    qed
    also have "\<dots> = rat_of_int (2 ^ k) * 2 powi e"
      by (simp only: powi_split power_int_of_nat) simp
    finally have half: "(1::rat) / 2 = rat_of_int (2 ^ k) * 2 powi e" .
    have eq: "d - 1 / 2 = rat_of_int (m - 2 ^ k) * 2 powi e"
      unfolding me(3) half by (simp add: algebra_simps)
    have "1 / 2 < d" using lo by simp
    then have "rat_of_int (2 ^ k) * 2 powi e < rat_of_int m * 2 powi e"
      unfolding me(3) half .
    then have "rat_of_int (2 ^ k) < rat_of_int m"
      by (simp add: mult_less_cancel_right)
    then have "2 ^ k < m" by (simp only: of_int_less_iff)
    moreover have "0 < (2::int) ^ k" by simp
    ultimately have "\<bar>m - 2 ^ k\<bar> < 2 ^ 53" using me(1) mpos by linarith
    with eq me(2) show ?thesis unfolding is_double_iff by blast
  qed
qed

lemma double_on_grid:
  assumes "is_double a" "a \<noteq> 0"
  shows "a = rat_of_int (roundHalfEven (a / 2 powi ulpExp a)) * 2 powi ulpExp a"
  using assms by (simp add: is_double_def rd_def)

lemma ulpExp_pos: "0 < x \<Longrightarrow> ulpExp x = max (flog2 x - 52) (- 1074)"
  by (simp add: ulpExp_def)

lemma ulpExp_mono: assumes "0 < x" "x \<le> y" shows "ulpExp x \<le> ulpExp y"
proof -
  have "0 < y" using assms by linarith
  with assms flog2_mono [OF assms] show ?thesis by (simp add: ulpExp_pos)
qed

lemma flog2_8: "flog2 8 = 3"
  by (rule flog2_unique) simp_all

lemma ulpExp_range:
  assumes "12 \<le> a" "a \<le> 40"
  shows "- 49 \<le> ulpExp a" and "ulpExp a \<le> - 47"
proof -
  have pos: "0 < a" using assms by linarith
  have "flog2 8 \<le> flog2 a" using assms by (intro flog2_mono) simp_all
  then have f3: "3 \<le> flog2 a" by (simp add: flog2_8)
  have "2 powi flog2 a < (2::rat) powi 6"
    using flog2_bounds(1) [OF pos] assms by simp
  then have f6: "flog2 a < 6" by (rule powi_less_imp)
  show "- 49 \<le> ulpExp a" using f3 by (simp add: ulpExp_pos [OF pos])
  show "ulpExp a \<le> - 47" using f6 by (simp add: ulpExp_pos [OF pos])
qed

lemma double_step_up:
  assumes da: "is_double a" and db: "is_double b" and a12: "12 \<le> a" and ab: "a < b"
    and b40: "b \<le> 40"
  shows "a + 1 / 2 \<le> rd (b + 1 / 2)"
proof -
  define ua where "ua = ulpExp a"
  define q where "q = (2::rat) powi ua"
  have q0: "0 < q" by (simp add: q_def)
  have apos: "0 < a" and bpos: "0 < b" using a12 ab by linarith+
  have a40: "a \<le> 40" using ab b40 by linarith
  have ua: "- 49 \<le> ua" "ua \<le> - 47" unfolding ua_def by (rule ulpExp_range [OF a12 a40])+
  define na where "na = roundHalfEven (a / q)"
  have a_eq: "a = rat_of_int na * q"
    unfolding na_def q_def ua_def using double_on_grid [OF da] apos by simp
  define d where "d = ulpExp b - ua"
  have d0: "0 \<le> d" unfolding d_def ua_def using ulpExp_mono [OF apos] ab by simp
  have "(2::rat) powi ulpExp b = 2 powi (d + ua)" by (simp add: d_def)
  also have "\<dots> = rat_of_int (2 ^ nat d) * q"
    by (simp only: powi_split powi_nat [OF d0] q_def)
  finally have qb: "(2::rat) powi ulpExp b = rat_of_int (2 ^ nat d) * q" .
  define nb where "nb = roundHalfEven (b / 2 powi ulpExp b) * 2 ^ nat d"
  have "b = rat_of_int (roundHalfEven (b / 2 powi ulpExp b)) * 2 powi ulpExp b"
    using double_on_grid [OF db] bpos by simp
  also have "\<dots> = rat_of_int (roundHalfEven (b / 2 powi ulpExp b)) * (rat_of_int (2 ^ nat d) * q)"
    by (simp only: qb)
  also have "\<dots> = rat_of_int nb * q" by (simp add: nb_def)
  finally have b_eq: "b = rat_of_int nb * q" .
  have "rat_of_int na * q < rat_of_int nb * q" using ab unfolding a_eq [symmetric] b_eq [symmetric] .
  then have "rat_of_int na < rat_of_int nb" using q0 by (simp add: mult_less_cancel_right)
  then have "na + 1 \<le> nb" by simp
  then have "rat_of_int (na + 1) \<le> rat_of_int nb" by (simp only: of_int_le_iff)
  then have "rat_of_int (na + 1) * q \<le> rat_of_int nb * q"
    using q0 by (intro mult_right_mono) simp_all
  then have step: "a + q \<le> b" unfolding b_eq [symmetric] by (simp add: a_eq algebra_simps)
  define k where "k = nat (- 1 - ua)"
  have k: "int k = - 1 - ua" using ua by (simp add: k_def)
  have k48: "k \<le> 48" using ua by (simp add: k_def)
  have "(1::rat) / 2 = 2 powi (- 1)" by (simp add: power_int_minus_divide)
  also have "\<dots> = 2 powi (int k + ua)" using k by simp
  also have "\<dots> = rat_of_int (2 ^ k) * q"
    by (simp only: powi_split power_int_of_nat q_def) simp
  finally have half: "(1::rat) / 2 = rat_of_int (2 ^ k) * q" .
  define c where "c = na + 2 ^ k"
  have T: "a + 1 / 2 = rat_of_int c * q"
    unfolding c_def by (simp add: a_eq half algebra_simps)
  have "\<bar>a\<bar> < 2 ^ 53 * q" unfolding q_def ua_def using abs_below_binade [of a] apos by simp
  then have "rat_of_int na * q < rat_of_int (2 ^ 53) * q" using apos a_eq by simp
  then have "rat_of_int na < rat_of_int (2 ^ 53)" using q0 by (simp add: mult_less_cancel_right)
  then have na53: "na < 2 ^ 53" by (simp only: of_int_less_iff)
  have "0 < rat_of_int na * q" using apos a_eq by simp
  then have "0 < rat_of_int na" using q0 by (simp add: zero_less_mult_iff)
  then have na0: "0 < na" by simp
  have "(2::int) ^ k \<le> 2 ^ 48" using k48 by (intro power_increasing) simp_all
  then have p48: "(2::int) ^ k \<le> 281474976710656" by simp
  have p0: "0 < (2::int) ^ k" by simp
  have na53': "na < 9007199254740992" using na53 by simp
  have "0 < c" using na0 p0 unfolding c_def by linarith
  moreover have "c + 1 < 18014398509481984" using na53' p48 unfolding c_def by linarith
  then have "c + 1 < 2 ^ 54" by simp
  ultimately have c54: "0 < c" "c + 1 < 2 ^ 54" by simp_all
  define c' where "c' = (if even c then c else c + 1)"
  have c': "even c'" "c \<le> c'" "c' \<le> c + 1" by (simp_all add: c'_def)
  define D where "D = rat_of_int c' * q"
  have "rat_of_int c' = rat_of_int (c' div 2) * 2" using c'(1) by (metis dvd_div_mult_self of_int_mult of_int_numeral)
  then have "D = rat_of_int (c' div 2) * (2 * q)" by (simp add: D_def)
  also have "2 * q = 2 powi (ua + 1)" by (simp add: q_def powi_split)
  finally have D_eq: "D = rat_of_int (c' div 2) * 2 powi (ua + 1)" .
  have "c' < 18014398509481984" "0 < c'" using c' c54 by simp_all
  then have "\<bar>c' div 2\<bar> < 9007199254740992" by linarith
  then have "\<bar>c' div 2\<bar> < 2 ^ 53" by simp
  moreover have "- 1074 \<le> ua + 1" using ua by simp
  ultimately have dD: "is_double D" unfolding D_eq is_double_iff by blast
  have "rat_of_int c * q \<le> rat_of_int c' * q"
    using c'(2) q0 by (intro mult_right_mono) simp_all
  then have TD: "a + 1 / 2 \<le> D" by (simp only: T D_def)
  have "rat_of_int c' * q \<le> rat_of_int (c + 1) * q"
    using c'(3) q0 by (intro mult_right_mono) simp_all
  then have "D \<le> a + 1 / 2 + q" unfolding D_def by (simp add: T algebra_simps)
  then have "D \<le> b + 1 / 2" using step by linarith
  then have "D \<le> rd (b + 1 / 2)" by (rule rd_ge_double [OF dD])
  with TD show ?thesis by linarith
qed

lemma double_grid:
  assumes da: "is_double a" and apos: "0 < a"
  shows "\<exists>n. a = rat_of_int n * 2 powi ulpExp a \<and> 0 < n \<and> n < 2 ^ 53"
proof -
  define q where "q = (2::rat) powi ulpExp a"
  have q0: "0 < q" by (simp add: q_def)
  define na where "na = roundHalfEven (a / q)"
  have a_eq: "a = rat_of_int na * q"
    unfolding na_def q_def using double_on_grid [OF da] apos by simp
  have "\<bar>a\<bar> < 2 ^ 53 * q" unfolding q_def using abs_below_binade [of a] apos by simp
  then have "rat_of_int na * q < rat_of_int (2 ^ 53) * q" using apos a_eq by simp
  then have "rat_of_int na < rat_of_int (2 ^ 53)" using q0 by (simp add: mult_less_cancel_right)
  then have na53: "na < 2 ^ 53" by (simp only: of_int_less_iff)
  have "0 < rat_of_int na * q" using apos a_eq by simp
  then have "0 < rat_of_int na" using q0 by (simp add: zero_less_mult_iff)
  then have na0: "0 < na" by simp
  from a_eq na0 na53 show ?thesis unfolding q_def by blast
qed

lemma double_next:
  assumes da: "is_double a" and db: "is_double b" and apos: "0 < a" and ab: "a < b"
  shows "a + 2 powi ulpExp a \<le> b"
proof -
  define ua where "ua = ulpExp a"
  define q where "q = (2::rat) powi ua"
  have q0: "0 < q" by (simp add: q_def)
  have bpos: "0 < b" using apos ab by linarith
  define na where "na = roundHalfEven (a / q)"
  have a_eq: "a = rat_of_int na * q"
    unfolding na_def q_def ua_def using double_on_grid [OF da] apos by simp
  define d where "d = ulpExp b - ua"
  have d0: "0 \<le> d" unfolding d_def ua_def using ulpExp_mono [OF apos] ab by simp
  have "(2::rat) powi ulpExp b = 2 powi (d + ua)" by (simp add: d_def)
  also have "\<dots> = rat_of_int (2 ^ nat d) * q"
    by (simp only: powi_split powi_nat [OF d0] q_def)
  finally have qb: "(2::rat) powi ulpExp b = rat_of_int (2 ^ nat d) * q" .
  define nb where "nb = roundHalfEven (b / 2 powi ulpExp b) * 2 ^ nat d"
  have "b = rat_of_int (roundHalfEven (b / 2 powi ulpExp b)) * 2 powi ulpExp b"
    using double_on_grid [OF db] bpos by simp
  also have "\<dots> = rat_of_int (roundHalfEven (b / 2 powi ulpExp b)) * (rat_of_int (2 ^ nat d) * q)"
    by (simp only: qb)
  also have "\<dots> = rat_of_int nb * q" by (simp add: nb_def)
  finally have b_eq: "b = rat_of_int nb * q" .
  have "rat_of_int na * q < rat_of_int nb * q" using ab unfolding a_eq [symmetric] b_eq [symmetric] .
  then have "rat_of_int na < rat_of_int nb" using q0 by (simp add: mult_less_cancel_right)
  then have "na + 1 \<le> nb" by simp
  then have "rat_of_int (na + 1) \<le> rat_of_int nb" by (simp only: of_int_le_iff)
  then have "rat_of_int (na + 1) * q \<le> rat_of_int nb * q"
    using q0 by (intro mult_right_mono) simp_all
  then have "a + q \<le> b" unfolding b_eq [symmetric] by (simp add: a_eq algebra_simps)
  then show ?thesis by (simp only: q_def ua_def)
qed

lemma flog2_double:
  assumes "2 powi f \<le> a" "a < 2 powi (f + 1)" "- 1022 \<le> f"
  shows "ulpExp a = f - 52"
proof -
  have "0 < (2::rat) powi f" by simp
  with assms(1) have pos: "0 < a" by linarith
  have "flog2 a = f" using assms(1,2) by (rule flog2_unique)
  with assms(3) show ?thesis by (simp add: ulpExp_pos [OF pos])
qed

lemma plus_half_double:
  assumes da: "is_double a" and lo: "2 powi f \<le> a" and hi: "a + 1 / 2 \<le> 2 powi (f + 1)"
    and f0: "0 \<le> f" and f51: "f \<le> 51"
  shows "is_double (a + 1 / 2)"
proof -
  have "0 < (2::rat) powi f" by simp
  with lo have pos: "0 < a" by linarith
  have lt: "a < 2 powi (f + 1)" using hi by linarith
  have ue: "ulpExp a = f - 52" using lo lt f0 by (intro flog2_double) simp_all
  define q where "q = (2::rat) powi (f - 52)"
  have q0: "0 < q" by (simp add: q_def)
  obtain n where n: "a = rat_of_int n * q" "0 < n" "n < 2 ^ 53"
    using double_grid [OF da pos] unfolding ue q_def by blast
  define k where "k = nat (51 - f)"
  have k: "int k = 51 - f" using f51 by (simp add: k_def)
  have "(1::rat) / 2 = 2 powi (- 1)" by (simp add: power_int_minus_divide)
  also have "\<dots> = 2 powi (int k + (f - 52))"
  proof -
    have "int k + (f - 52) = - 1" using k by linarith
    then show ?thesis by (simp only:)
  qed
  also have "\<dots> = rat_of_int (2 ^ k) * q"
    by (simp only: powi_split power_int_of_nat q_def) simp
  finally have half: "(1::rat) / 2 = rat_of_int (2 ^ k) * q" .
  have sum: "a + 1 / 2 = rat_of_int (n + 2 ^ k) * q"
    by (simp add: n(1) half algebra_simps)
  have e53: "53 + (f - 52) = f + 1" by simp
  have "(2::rat) powi (f + 1) = 2 powi (53 + (f - 52))" by (simp only: e53)
  also have "\<dots> = rat_of_int (2 ^ 53) * q" by (simp only: powi_split q_def) simp
  finally have top: "(2::rat) powi (f + 1) = rat_of_int (2 ^ 53) * q" .
  have "rat_of_int (n + 2 ^ k) * q \<le> rat_of_int (2 ^ 53) * q"
    using hi unfolding sum top .
  then have "rat_of_int (n + 2 ^ k) \<le> rat_of_int (2 ^ 53)"
    using q0 by (simp add: mult_le_cancel_right)
  then have le: "n + 2 ^ k \<le> 2 ^ 53" by (simp only: of_int_le_iff)
  have p0: "0 < (2::int) ^ k" by simp
  show ?thesis
  proof (cases "n + 2 ^ k = 2 ^ 53")
    case True
    have "a + 1 / 2 = rat_of_int 1 * 2 powi (f + 1)"
      unfolding sum top True by simp
    moreover have "\<bar>1::int\<bar> < 2 ^ 53" by simp
    moreover have "- 1074 \<le> f + 1" using f0 by simp
    ultimately show ?thesis unfolding is_double_iff by blast
  next
    case False
    with le have "n + 2 ^ k < 2 ^ 53" by simp
    with n(2) p0 have "\<bar>n + 2 ^ k\<bar> < 2 ^ 53" by linarith
    moreover have "- 1074 \<le> f - 52" using f0 by simp
    ultimately show ?thesis unfolding is_double_iff using sum q_def by blast
  qed
qed

lemma half_step_range:
  assumes da: "is_double a" and a12: "12 \<le> a" and a40: "a \<le> 40"
    and bad: "\<not> is_double (a + 1 / 2)"
  shows "(31 / 2 < a \<and> a < 16) \<or> (63 / 2 < a \<and> a < 32)"
proof (rule ccontr)
  assume n: "\<not> ((31 / 2 < a \<and> a < 16) \<or> (63 / 2 < a \<and> a < 32))"
  consider "a \<le> 31 / 2" | "16 \<le> a" "a \<le> 63 / 2" | "32 \<le> a" using n by linarith
  then have "is_double (a + 1 / 2)"
  proof cases
    case 1
    show ?thesis using da a12 1 by (intro plus_half_double [where f = 3]) simp_all
  next
    case 2
    show ?thesis using da 2 by (intro plus_half_double [where f = 4]) simp_all
  next
    case 3
    show ?thesis using da 3 a40 by (intro plus_half_double [where f = 5]) simp_all
  qed
  with bad show False by simp
qed

lemma rhe_tie_odd:
  assumes "odd n"
  shows "roundHalfEven (rat_of_int n + 1 / 2) = n + 1"
proof -
  have fl: "\<lfloor>rat_of_int n + 1 / 2\<rfloor> = n" by (rule floor_unique) simp_all
  show ?thesis unfolding roundHalfEven_def Let_def fl using assms by simp
qed

lemma midpoint_above:
  assumes da: "is_double a" and db: "is_double b" and a12: "12 \<le> a" and ab: "a < b"
    and b40: "b \<le> 40" and bad: "\<not> is_double (a + 1 / 2)"
  shows "a < rd (rd (a + b) / 2)"
proof -
  have apos: "0 < a" using a12 by linarith
  have a40: "a \<le> 40" using ab b40 by linarith
  have "(31 / 2 < a \<and> a < 16) \<or> (63 / 2 < a \<and> a < 32)"
    using da a12 a40 bad by (rule half_step_range)
  then have "\<exists>f. 2 powi f \<le> a \<and> a < 2 powi (f + 1) \<and> (3::int) \<le> f \<and> f \<le> 4"
  proof
    assume "31 / 2 < a \<and> a < 16"
    then have "2 powi 3 \<le> a \<and> a < 2 powi (3 + 1) \<and> (3::int) \<le> 3 \<and> (3::int) \<le> 4" by simp
    then show ?thesis by blast
  next
    assume "63 / 2 < a \<and> a < 32"
    then have "2 powi 4 \<le> a \<and> a < 2 powi (4 + 1) \<and> (3::int) \<le> 4 \<and> (4::int) \<le> 4" by simp
    then show ?thesis by blast
  qed
  then obtain f :: int where f: "2 powi f \<le> a" "a < 2 powi (f + 1)" "3 \<le> f" "f \<le> 4"
    by blast
  have ue: "ulpExp a = f - 52" using f by (intro flog2_double) simp_all
  define q where "q = (2::rat) powi (f - 52)"
  have q0: "0 < q" by (simp add: q_def)
  obtain n where n: "a = rat_of_int n * q" "0 < n" "n < 2 ^ 53"
    using double_grid [OF da apos] unfolding ue q_def by blast
  have n53: "n < 9007199254740992" using n(3) by simp
  have q2: "2 * q = 2 powi (f - 51)"
  proof -
    have "f - 51 = 1 + (f - 52)" by simp
    then have "(2::rat) powi (f - 51) = 2 powi (1 + (f - 52))" by (simp only:)
    also have "\<dots> = 2 * q" by (simp only: powi_split q_def) simp
    finally show ?thesis by simp
  qed
  have top: "(2::rat) powi (f + 1) = rat_of_int (2 ^ 53) * q"
  proof -
    have e53: "53 + (f - 52) = f + 1" by simp
    have "(2::rat) powi (f + 1) = 2 powi (53 + (f - 52))" by (simp only: e53)
    also have "\<dots> = rat_of_int (2 ^ 53) * q" by (simp only: powi_split q_def) simp
    finally show ?thesis .
  qed
  have oddn: "odd n"
  proof (rule ccontr)
    assume "\<not> odd n"
    then have ev: "even n" by simp
    define k where "k = nat (51 - f)"
    have k: "int k = 51 - f" using f(4) by (simp add: k_def)
    have k1: "0 < k" "k \<le> 48" using f(3,4) by (simp_all add: k_def)
    have "(1::rat) / 2 = 2 powi (- 1)" by (simp add: power_int_minus_divide)
    also have "\<dots> = 2 powi (int k + (f - 52))"
    proof -
      have "int k + (f - 52) = - 1" using k by linarith
      then show ?thesis by (simp only:)
    qed
    also have "\<dots> = rat_of_int (2 ^ k) * q"
      by (simp only: powi_split power_int_of_nat q_def) simp
    finally have half: "(1::rat) / 2 = rat_of_int (2 ^ k) * q" .
    define c where "c = n + 2 ^ k"
    have sum: "a + 1 / 2 = rat_of_int c * q"
      by (simp add: c_def n(1) half algebra_simps)
    have "even ((2::int) ^ k)" using k1(1) by simp
    with ev have evc: "even c" by (simp add: c_def)
    have "(2::int) ^ k \<le> 2 ^ 48" using k1(2) by (intro power_increasing) simp_all
    then have p48: "(2::int) ^ k \<le> 281474976710656" by simp
    have p0: "0 < (2::int) ^ k" by simp
    have c0: "0 < c" and c54: "c < 18014398509481984"
      using n(2) n53 p0 p48 unfolding c_def by linarith+
    obtain m where m: "c = 2 * m" using evc by (auto elim: evenE)
    have "rat_of_int c * q = rat_of_int m * (2 * q)" by (simp add: m)
    then have eq: "a + 1 / 2 = rat_of_int m * 2 powi (f - 51)" by (simp only: sum q2)
    have "\<bar>m\<bar> < 9007199254740992" using c0 c54 m by linarith
    then have "\<bar>m\<bar> < 2 ^ 53" by simp
    moreover have "- 1074 \<le> f - 51" using f(3) by simp
    ultimately have "is_double (a + 1 / 2)" unfolding is_double_iff using eq by blast
    with bad show False by simp
  qed
  have step: "a + q \<le> b"
    using double_next [OF da db apos ab] unfolding ue q_def .
  define x where "x = 2 * a + q"
  have xeq: "x = (rat_of_int n + 1 / 2) * (2 * q)"
    by (simp add: x_def n(1) algebra_simps)
  have "n \<le> 2 ^ 53 - 1" using n(3) by simp
  then have "rat_of_int n \<le> rat_of_int (2 ^ 53 - 1)" by (simp only: of_int_le_iff)
  then have "rat_of_int n * q \<le> rat_of_int (2 ^ 53 - 1) * q"
    using q0 by (intro mult_right_mono) simp_all
  then have a_top: "a \<le> 2 powi (f + 1) - q"
    unfolding n(1) [symmetric] top by (simp add: algebra_simps)
  have two: "(2::rat) powi (f + 1 + 1) = 2 * 2 powi (f + 1)" by (simp only: powi_split) simp
  have two': "(2::rat) powi (f + 1) = 2 * 2 powi f" by (simp only: powi_split) simp
  have xlo: "2 powi (f + 1) \<le> x" using f(1) q0 unfolding x_def two' by linarith
  have xhi: "x < 2 powi (f + 1 + 1)" using a_top q0 unfolding x_def two by linarith
  have "ulpExp x = f + 1 - 52" using xlo xhi f(3) by (intro flog2_double) simp_all
  then have uex: "ulpExp x = f - 51" by simp
  have x0: "x \<noteq> 0" using apos q0 unfolding x_def by linarith
  have "x / (2 * q) = rat_of_int n + 1 / 2" using q0 unfolding xeq by simp
  then have "roundHalfEven (x / (2 * q)) = n + 1" using rhe_tie_odd [OF oddn] by simp
  then have rdx: "rd x = rat_of_int (n + 1) * (2 * q)"
    using x0 by (simp add: rd_def uex q2)
  have "x \<le> a + b" using step unfolding x_def by linarith
  then have "rd x \<le> rd (a + b)" by (rule rd_mono)
  then have "rat_of_int (n + 1) * (2 * q) \<le> rd (a + b)" by (simp only: rdx)
  then have T: "a + q \<le> rd (a + b) / 2" by (simp add: n(1) algebra_simps)
  have dq: "is_double (a + q)"
  proof (cases "n + 1 = 2 ^ 53")
    case True
    have "a + q = rat_of_int (n + 1) * q" by (simp add: n(1) algebra_simps)
    also have "\<dots> = rat_of_int 1 * 2 powi (f + 1)" unfolding True top by simp
    finally have "a + q = rat_of_int 1 * 2 powi (f + 1)" .
    moreover have "\<bar>1::int\<bar> < 2 ^ 53" by simp
    moreover have "- 1074 \<le> f + 1" using f(3) by simp
    ultimately show ?thesis unfolding is_double_iff by blast
  next
    case False
    have "a + q = rat_of_int (n + 1) * 2 powi (f - 52)" by (simp add: n(1) q_def algebra_simps)
    moreover have "\<bar>n + 1\<bar> < 2 ^ 53" using False n(2,3) by linarith
    moreover have "- 1074 \<le> f - 52" using f(3) by simp
    ultimately show ?thesis unfolding is_double_iff by blast
  qed
  have "a + q \<le> rd (rd (a + b) / 2)" using dq T by (rule rd_ge_double)
  with q0 show ?thesis by linarith
qed

section \<open>Evaluation of the model on concrete inputs\<close>

text \<open>
  The rules with which the simplifier evaluates the solver on numerals: the floor and the
  ceiling of a quotient of numerals, the binary exponent, the rounding of a numeral or of a
  quotient of numerals, and the two branches of the loop.
\<close>

lemma floor_rat_numerals:
  "\<lfloor>numeral a / numeral b :: rat\<rfloor> = numeral a div numeral b"
  using floor_divide_of_int_eq [of "numeral a" "numeral b", where ?'a = rat] by simp

lemma ceiling_rat_numerals:
  "\<lceil>numeral a / numeral b :: rat\<rceil> = - (- numeral a div numeral b)"
proof -
  have "\<lceil>rat_of_int (numeral a) / rat_of_int (numeral b)\<rceil>
        = - \<lfloor>rat_of_int (- numeral a) / rat_of_int (numeral b)\<rfloor>"
    by (simp add: ceiling_def)
  also have "\<dots> = - (- numeral a div numeral b)"
    by (simp only: floor_divide_of_int_eq)
  finally show ?thesis by simp
qed

lemma ilog2_stop: "n < 2 \<Longrightarrow> ilog2 n = 0"
  by (subst ilog2.simps) simp

lemma ilog2_step: "\<not> n < 2 \<Longrightarrow> ilog2 n = Suc (ilog2 (n div 2))"
  by (subst ilog2.simps) simp

lemma searchLoop_continue:
  "low s \<le> high s \<Longrightarrow> searchLoop v W H c s = searchLoop v W H c (searchStep v W H c s)"
  by (subst searchLoop.simps) simp

lemma searchLoop_exit:
  "\<not> low s \<le> high s \<Longrightarrow> searchLoop v W H c s = Some s"
  by (subst searchLoop.simps) simp

lemmas eval_rd =
  rd_def [of "numeral a / numeral b"] rd_def [of "numeral a"] rd_def [of 1] rd_0 rd_minus
  ulpExp_def [of "numeral a / numeral b"] ulpExp_def [of "numeral a"] ulpExp_def [of 1]
  flog2_def [of "numeral a / numeral b"] flog2_def [of "numeral a"] flog2_def [of 1]
  roundHalfEven_def [of "numeral a / numeral b"] roundHalfEven_def [of "numeral a"]
  roundHalfEven_def [of 1] roundHalfEven_def [of 0]
  Let_def ilog2_stop ilog2_step
  floor_rat_numerals ceiling_rat_numerals power_int_minus_divide
  for a b

lemmas eval_fit =
  fitSolver_def target_def padding_def minSize_def maxSize_def rootFontSize_def
  searchLoop_continue searchLoop_exit searchStep_def precision_def checkFits_def eval_rd

section \<open>Properties of the fit predicate and of the search\<close>

subsection \<open>The fit predicate is monotone\<close>

lemma checkFits_needed:
  "checkFits v s W H c = (if v then neededExtent s H c \<le> W else neededExtent s W c \<le> H)"
  by (simp add: checkFits_def neededExtent_def Let_def)

lemma lineHeight_nonneg: "0 \<le> rd (12 / 10)"
  by (rule rd_nonneg) simp

lemma cell_ge1: "1 \<le> rd (105 / 100)"
  by (rule rd_ge_double) simp_all

lemma lines_ge0: "0 \<le> \<lceil>rd (rat_of_nat c / rat_of_int (max k 1))\<rceil>"
proof -
  have "0 \<le> rat_of_nat c / rat_of_int (max k 1)" by simp
  then have "0 \<le> rd (rat_of_nat c / rat_of_int (max k 1))" by (rule rd_nonneg)
  then have "- 1 < rd (rat_of_nat c / rat_of_int (max k 1))" by linarith
  then show ?thesis by simp
qed

lemma effective_ge12: assumes "12 \<le> s" shows "12 \<le> rd (s * rd (105 / 100))"
proof -
  have "12 * 1 \<le> s * rd (105 / 100)"
    using assms cell_ge1 by (intro mult_mono) simp_all
  then have "12 \<le> s * rd (105 / 100)" by simp
  then show ?thesis by (intro rd_ge_double) simp_all
qed

lemma needed_size_mono:
  assumes s': "12 \<le> s'" and le: "s' \<le> s" and A: "0 \<le> A"
  shows "neededExtent s' A c \<le> neededExtent s A c"
proof -
  define e where "e = rd (s * rd (105 / 100))"
  define e' where "e' = rd (s' * rd (105 / 100))"
  define k where "k = max \<lfloor>rd (A / e)\<rfloor> 1"
  define k' where "k' = max \<lfloor>rd (A / e')\<rfloor> 1"
  define L where "L = \<lceil>rd (rat_of_nat c / rat_of_int k)\<rceil>"
  define L' where "L' = \<lceil>rd (rat_of_nat c / rat_of_int k')\<rceil>"
  have "s' * rd (105 / 100) \<le> s * rd (105 / 100)"
    using le cell_ge1 by (intro mult_right_mono) simp_all
  then have ee: "e' \<le> e" unfolding e_def e'_def by (rule rd_mono)
  have e'12: "12 \<le> e'" unfolding e'_def by (rule effective_ge12 [OF s'])
  have "A / e \<le> A / e'"
    using ee e'12 A by (intro divide_left_mono) (auto intro: mult_pos_pos)
  then have "rd (A / e) \<le> rd (A / e')" by (rule rd_mono)
  then have "\<lfloor>rd (A / e)\<rfloor> \<le> \<lfloor>rd (A / e')\<rfloor>" by (rule floor_mono)
  then have kk: "k \<le> k'" and k1: "1 \<le> k" by (auto simp: k_def k'_def)
  have "rat_of_nat c / rat_of_int k' \<le> rat_of_nat c / rat_of_int k"
    using kk k1 by (intro divide_left_mono) auto
  then have "rd (rat_of_nat c / rat_of_int k') \<le> rd (rat_of_nat c / rat_of_int k)"
    by (rule rd_mono)
  then have LL: "L' \<le> L" unfolding L_def L'_def by (rule ceiling_mono)
  have L0: "0 \<le> L'" unfolding L'_def k'_def by (rule lines_ge0)
  have "rat_of_int L' * s' \<le> rat_of_int L * s"
    using LL L0 s' le by (intro mult_mono) auto
  then have "rd (rat_of_int L' * s') \<le> rd (rat_of_int L * s)" by (rule rd_mono)
  then have "rd (rat_of_int L' * s') * rd (12 / 10) \<le> rd (rat_of_int L * s) * rd (12 / 10)"
    using lineHeight_nonneg by (rule mult_right_mono)
  then have "rd (rd (rat_of_int L' * s') * rd (12 / 10)) \<le> rd (rd (rat_of_int L * s) * rd (12 / 10))"
    by (rule rd_mono)
  then show ?thesis unfolding neededExtent_def L_def L'_def k_def k'_def e_def e'_def .
qed

lemma checkFits_size_mono:
  assumes "12 \<le> s'" "s' \<le> s" "0 \<le> W" "0 \<le> H" "checkFits v s W H c"
  shows "checkFits v s' W H c"
proof (cases v)
  case True
  have "neededExtent s' H c \<le> neededExtent s H c"
    using assms(1,2,4) by (rule needed_size_mono)
  with assms(5) True show ?thesis by (simp add: checkFits_needed)
next
  case False
  have "neededExtent s' W c \<le> neededExtent s W c"
    using assms(1,2,3) by (rule needed_size_mono)
  with assms(5) False show ?thesis by (simp add: checkFits_needed)
qed

lemma needed_count_mono:
  assumes c: "c1 \<le> c2" and s: "0 \<le> s"
  shows "neededExtent s A c1 \<le> neededExtent s A c2"
proof -
  define k where "k = max \<lfloor>rd (A / rd (s * rd (105 / 100)))\<rfloor> 1"
  have k1: "1 \<le> k" by (simp add: k_def)
  have "rat_of_nat c1 / rat_of_int k \<le> rat_of_nat c2 / rat_of_int k"
    using c k1 by (intro divide_right_mono) auto
  then have "rd (rat_of_nat c1 / rat_of_int k) \<le> rd (rat_of_nat c2 / rat_of_int k)"
    by (rule rd_mono)
  then have "\<lceil>rd (rat_of_nat c1 / rat_of_int k)\<rceil> \<le> \<lceil>rd (rat_of_nat c2 / rat_of_int k)\<rceil>"
    by (rule ceiling_mono)
  then have "rat_of_int \<lceil>rd (rat_of_nat c1 / rat_of_int k)\<rceil> * s
             \<le> rat_of_int \<lceil>rd (rat_of_nat c2 / rat_of_int k)\<rceil> * s"
    using s by (intro mult_right_mono) auto
  then have "rd (rat_of_int \<lceil>rd (rat_of_nat c1 / rat_of_int k)\<rceil> * s)
             \<le> rd (rat_of_int \<lceil>rd (rat_of_nat c2 / rat_of_int k)\<rceil> * s)"
    by (rule rd_mono)
  then have "rd (rat_of_int \<lceil>rd (rat_of_nat c1 / rat_of_int k)\<rceil> * s) * rd (12 / 10)
             \<le> rd (rat_of_int \<lceil>rd (rat_of_nat c2 / rat_of_int k)\<rceil> * s) * rd (12 / 10)"
    using lineHeight_nonneg by (rule mult_right_mono)
  then have "rd (rd (rat_of_int \<lceil>rd (rat_of_nat c1 / rat_of_int k)\<rceil> * s) * rd (12 / 10))
             \<le> rd (rd (rat_of_int \<lceil>rd (rat_of_nat c2 / rat_of_int k)\<rceil> * s) * rd (12 / 10))"
    by (rule rd_mono)
  then show ?thesis unfolding neededExtent_def k_def .
qed

lemma checkFits_count_mono:
  assumes "c1 \<le> c2" "0 \<le> s" "checkFits v s W H c2"
  shows "checkFits v s W H c1"
proof (cases v)
  case True
  have "neededExtent s H c1 \<le> neededExtent s H c2"
    using assms(1,2) by (rule needed_count_mono)
  with assms(3) True show ?thesis by (simp add: checkFits_needed)
next
  case False
  have "neededExtent s W c1 \<le> neededExtent s W c2"
    using assms(1,2) by (rule needed_count_mono)
  with assms(3) False show ?thesis by (simp add: checkFits_needed)
qed

subsection \<open>One pass of the loop\<close>

lemma midpoint_between:
  assumes dl: "is_double (low s)" and dh: "is_double (high s)" and le: "low s \<le> high s"
  shows "low s \<le> midpoint s" and "midpoint s \<le> high s"
proof -
  have "2 * low s \<le> low s + high s" using le by simp
  then have "2 * low s \<le> rd (low s + high s)"
    by (intro rd_ge_double is_double_twice dl)
  then have "low s \<le> rd (low s + high s) / 2" by simp
  then show "low s \<le> midpoint s" unfolding midpoint_def by (intro rd_ge_double dl)
  have "low s + high s \<le> 2 * high s" using le by simp
  then have "rd (low s + high s) \<le> 2 * high s"
    by (intro rd_le_double is_double_twice dh)
  then have "rd (low s + high s) / 2 \<le> high s" by simp
  then show "midpoint s \<le> high s" unfolding midpoint_def by (intro rd_le_double dh)
qed

lemma searchStep_fits:
  assumes "checkFits v (midpoint s) W H c"
  shows "low (searchStep v W H c s) = rd (midpoint s + 1 / 2)"
    and "high (searchStep v W H c s) = high s"
    and "bestSize (searchStep v W H c s) = midpoint s"
  using assms by (simp_all add: searchStep_def Let_def precision_def midpoint_def)

lemma searchStep_nofit:
  assumes "\<not> checkFits v (midpoint s) W H c"
  shows "low (searchStep v W H c s) = low s"
    and "high (searchStep v W H c s) = rd (midpoint s - 1 / 2)"
    and "bestSize (searchStep v W H c s) = bestSize s"
  using assms by (simp_all add: searchStep_def Let_def precision_def midpoint_def)

lemma solverState_step:
  assumes st: "solverState s" and le: "low s \<le> high s"
  shows "solverState (searchStep v W H c s)"
proof -
  have dl: "is_double (low s)" and dh: "is_double (high s)" and l12: "12 \<le> low s"
    and h40: "high s \<le> 40" using st by (simp_all add: solverState_def)
  have mid: "low s \<le> midpoint s" "midpoint s \<le> high s"
    using midpoint_between [OF dl dh le] by simp_all
  show ?thesis
  proof (cases "checkFits v (midpoint s) W H c")
    case True
    have "12 \<le> rd (midpoint s + 1 / 2)"
      using mid l12 by (intro rd_ge_double) simp_all
    with searchStep_fits [OF True] dh h40 show ?thesis by (simp add: solverState_def)
  next
    case False
    have "rd (midpoint s - 1 / 2) \<le> 40"
      using mid h40 by (intro rd_le_double) simp_all
    with searchStep_nofit [OF False] dl l12 show ?thesis by (simp add: solverState_def)
  qed
qed

lemma ulp47_bounds: "0 < ulp47" "1000000 * ulp47 \<le> 1"
  by (simp_all add: ulp47_def)

lemma rd_near:
  assumes "\<bar>x\<bar> < 128"
  shows "x - ulp47 \<le> rd x" and "rd x \<le> x + ulp47"
  using rd_error_small [OF assms] unfolding ulp47_def by linarith+

lemma midpoint_near:
  assumes st: "solverState s" and le: "low s \<le> high s"
  shows "low s + high s - 4 * ulp47 \<le> 2 * midpoint s"
    and "2 * midpoint s \<le> low s + high s + 4 * ulp47"
proof -
  have l12: "12 \<le> low s" and h40: "high s \<le> 40" using st by (simp_all add: solverState_def)
  define S where "S = low s + high s"
  define R where "R = rd S"
  define T where "T = R / 2"
  have T2: "2 * T = R" by (simp add: T_def)
  have S: "24 \<le> S" "S \<le> 80" using l12 h40 le unfolding S_def by linarith+
  have "\<bar>S\<bar> < 128" using S by linarith
  then have eR: "S - ulp47 \<le> R" "R \<le> S + ulp47" unfolding R_def by (rule rd_near)+
  have "\<bar>T\<bar> < 128" using S eR T2 ulp47_bounds by linarith
  then have eM: "T - ulp47 \<le> rd T" "rd T \<le> T + ulp47" by (rule rd_near)+
  have m: "midpoint s = rd T" by (simp add: midpoint_def R_def S_def T_def)
  show "low s + high s - 4 * ulp47 \<le> 2 * midpoint s"
    unfolding m S_def [symmetric] using eR eM T2 ulp47_bounds by linarith
  show "2 * midpoint s \<le> low s + high s + 4 * ulp47"
    unfolding m S_def [symmetric] using eR eM T2 ulp47_bounds by linarith
qed

lemma searchStep_gap:
  assumes st: "solverState s" and le: "low s \<le> high s"
  shows "2 * high (searchStep v W H c s) - 2 * low (searchStep v W H c s)
         \<le> high s - low s - 1 + 6 * ulp47"
proof -
  have dl: "is_double (low s)" and dh: "is_double (high s)" and l12: "12 \<le> low s"
    and h40: "high s \<le> 40" using st by (simp_all add: solverState_def)
  have mid: "low s \<le> midpoint s" "midpoint s \<le> high s"
    using midpoint_between [OF dl dh le] by simp_all
  note near = midpoint_near [OF st le]
  show ?thesis
  proof (cases "checkFits v (midpoint s) W H c")
    case True
    define X where "X = midpoint s + 1 / 2"
    have X2: "2 * X = 2 * midpoint s + 1" by (simp add: X_def)
    have "\<bar>X\<bar> < 128" using mid l12 h40 X2 by linarith
    then have "X - ulp47 \<le> rd X" by (rule rd_near)
    with near X2 show ?thesis
      unfolding searchStep_fits [OF True] X_def [symmetric] by linarith
  next
    case False
    define X where "X = midpoint s - 1 / 2"
    have X2: "2 * X = 2 * midpoint s - 1" by (simp add: X_def)
    have "\<bar>X\<bar> < 128" using mid l12 h40 X2 by linarith
    then have "rd X \<le> X + ulp47" by (rule rd_near)
    with near X2 show ?thesis
      unfolding searchStep_nofit [OF False] X_def [symmetric] by linarith
  qed
qed

lemma searchStep_measure:
  assumes st: "solverState s" and le: "low s \<le> high s"
  shows "searchMeasure (searchStep v W H c s) < searchMeasure s"
proof -
  define t where "t = 4 * (high s - low s + 1)"
  define t' where "t' = 4 * (high (searchStep v W H c s) - low (searchStep v W H c s) + 1)"
  have t: "t = 4 * high s - 4 * low s + 4" by (simp add: t_def)
  have t': "t' = 4 * high (searchStep v W H c s) - 4 * low (searchStep v W H c s) + 4"
    by (simp add: t'_def)
  have "t - 1 < rat_of_int \<lfloor>t\<rfloor>" by linarith
  moreover have "t' \<le> t - 1"
    using searchStep_gap [OF st le, of v W H c] le ulp47_bounds unfolding t t' by linarith
  ultimately have "t' < rat_of_int \<lfloor>t\<rfloor>" by linarith
  then have "\<lfloor>t'\<rfloor> < \<lfloor>t\<rfloor>" by (simp only: floor_less_iff)
  moreover have "rat_of_int 4 \<le> t" using le unfolding t by simp
  then have "4 \<le> \<lfloor>t\<rfloor>" by (simp only: le_floor_iff)
  ultimately have "nat \<lfloor>t'\<rfloor> < nat \<lfloor>t\<rfloor>" by linarith
  then show ?thesis by (simp only: searchMeasure_def t_def t'_def)
qed

lemma searchStep_progress:
  assumes st: "solverState s" and le: "low s \<le> high s"
  shows "(checkFits v (midpoint s) W H c
          \<and> high (searchStep v W H c s) = high s
          \<and> rd (low s + precision) \<le> low (searchStep v W H c s)
          \<and> (low s + precision \<le> low (searchStep v W H c s)
              \<or> high s < low (searchStep v W H c s)))
       \<or> (\<not> checkFits v (midpoint s) W H c
          \<and> low (searchStep v W H c s) = low s
          \<and> high (searchStep v W H c s) \<le> high s - precision)"
proof -
  have dl: "is_double (low s)" and dh: "is_double (high s)" and l12: "12 \<le> low s"
    and h40: "high s \<le> 40" using st by (simp_all add: solverState_def)
  have mid: "low s \<le> midpoint s" "midpoint s \<le> high s"
    using midpoint_between [OF dl dh le] by simp_all
  have dm: "is_double (midpoint s)" by (simp add: midpoint_def)
  show ?thesis
  proof (cases "checkFits v (midpoint s) W H c")
    case True
    note f = searchStep_fits [OF True]
    have a: "rd (low s + 1 / 2) \<le> rd (midpoint s + 1 / 2)"
      using mid by (intro rd_mono) simp
    have b: "low s + 1 / 2 \<le> rd (midpoint s + 1 / 2) \<or> high s < rd (midpoint s + 1 / 2)"
    proof (cases "low s < midpoint s")
      case lt: True
      have "low s + 1 / 2 \<le> rd (midpoint s + 1 / 2)"
        using dl dm l12 lt mid(2) h40 by (intro double_step_up) simp_all
      then show ?thesis ..
    next
      case False
      with mid have eq: "midpoint s = low s" by simp
      have "low s + high s - 4 * ulp47 \<le> 2 * low s"
        using midpoint_near(1) [OF st le] by (simp only: eq)
      moreover define X where "X = low s + 1 / 2"
      have X2: "2 * X = 2 * low s + 1" by (simp add: X_def)
      have "\<bar>X\<bar> < 128" using l12 le h40 X2 by linarith
      then have "X - ulp47 \<le> rd X" by (rule rd_near)
      ultimately have "high s < rd X" using X2 ulp47_bounds by linarith
      then show ?thesis by (simp add: eq X_def)
    qed
    from True f a b show ?thesis by (simp add: precision_def)
  next
    case False
    note f = searchStep_nofit [OF False]
    have "is_double (high s - 1 / 2)"
      using dh l12 le h40 by (intro is_double_minus_half) simp_all
    moreover have "midpoint s - 1 / 2 \<le> high s - 1 / 2" using mid by simp
    ultimately have "rd (midpoint s - 1 / 2) \<le> high s - 1 / 2" by (rule rd_le_double)
    with False f show ?thesis by (simp add: precision_def)
  qed
qed

subsection \<open>The loop returns\<close>

lemma solver_induct [consumes 1, case_names exit pass]:
  assumes "solverState s"
    and "\<And>s. solverState s \<Longrightarrow> \<not> low s \<le> high s \<Longrightarrow> P s"
    and "\<And>s. solverState s \<Longrightarrow> low s \<le> high s \<Longrightarrow> P (searchStep v W H c s) \<Longrightarrow> P s"
  shows "P s"
  using assms(1)
proof (induction "searchMeasure s" arbitrary: s rule: less_induct)
  case less
  show ?case
  proof (cases "low s \<le> high s")
    case False
    with less.prems show ?thesis by (rule assms(2))
  next
    case True
    have "P (searchStep v W H c s)"
      using less.prems True
      by (intro less.hyps searchStep_measure solverState_step)
    with less.prems True show ?thesis by (rule assms(3))
  qed
qed

lemma searchLoop_returns:
  assumes "solverState s"
  shows "\<exists>r. searchLoop v W H c s = Some r"
  using assms
proof (induction rule: solver_induct [where v = v and W = W and H = H and c = c])
  case (exit s)
  then show ?case by (simp add: searchLoop_exit)
next
  case (pass s)
  then show ?case by (simp add: searchLoop_continue)
qed

lemma searchResult_continue:
  "low s \<le> high s \<Longrightarrow> searchResult v W H c s = searchResult v W H c (searchStep v W H c s)"
  by (simp add: searchResult_def searchLoop_continue)

lemma searchResult_exit:
  "\<not> low s \<le> high s \<Longrightarrow> searchResult v W H c s = s"
  by (simp add: searchResult_def searchLoop_exit)

lemma searchLoop_best:
  assumes "solverState s"
  shows "bestSize (searchResult v W H c s) = bestSize s
   \<or> (low s \<le> bestSize (searchResult v W H c s) \<and> bestSize (searchResult v W H c s) \<le> high s
      \<and> checkFits v (bestSize (searchResult v W H c s)) W H c)"
  using assms
proof (induction rule: solver_induct [where v = v and W = W and H = H and c = c])
  case (exit s)
  then show ?case by (simp add: searchResult_exit)
next
  case (pass s)
  define s' where "s' = searchStep v W H c s"
  define b where "b = bestSize (searchResult v W H c s')"
  have r: "searchResult v W H c s = searchResult v W H c s'"
    unfolding s'_def using pass(2) by (rule searchResult_continue)
  have IH: "b = bestSize s' \<or> (low s' \<le> b \<and> b \<le> high s' \<and> checkFits v b W H c)"
    unfolding b_def s'_def by (rule pass(3))
  have dl: "is_double (low s)" and dh: "is_double (high s)"
    using pass(1) by (simp_all add: solverState_def)
  have mid: "low s \<le> midpoint s" "midpoint s \<le> high s"
    using midpoint_between [OF dl dh pass(2)] by simp_all
  have "b = bestSize s \<or> (low s \<le> b \<and> b \<le> high s \<and> checkFits v b W H c)"
  proof (cases "checkFits v (midpoint s) W H c")
    case fits: True
    have f: "low s' = rd (midpoint s + 1 / 2)" "high s' = high s" "bestSize s' = midpoint s"
      unfolding s'_def using fits by (rule searchStep_fits)+
    have "midpoint s \<le> rd (midpoint s + 1 / 2)"
      by (intro rd_ge_double) (simp_all add: midpoint_def)
    with IH mid fits f show ?thesis by auto
  next
    case nofit: False
    have f: "low s' = low s" "high s' = rd (midpoint s - 1 / 2)" "bestSize s' = bestSize s"
      unfolding s'_def using nofit by (rule searchStep_nofit)+
    have "rd (midpoint s - 1 / 2) \<le> midpoint s"
      by (intro rd_le_double) (simp_all add: midpoint_def)
    with IH mid f show ?thesis by auto
  qed
  then show ?case unfolding r b_def .
qed

lemma searchLoop_count_mono:
  assumes "solverState s1" and "c1 \<le> c2"
  shows "low s2 = low s1 \<Longrightarrow> high s2 = high s1 \<Longrightarrow> bestSize s2 \<le> bestSize s1 \<Longrightarrow>
         bestSize s2 \<le> low s1 \<Longrightarrow>
         bestSize (searchResult v W H c2 s2) \<le> bestSize (searchResult v W H c1 s1)"
  using assms(1)
proof (induction arbitrary: s2 rule: solver_induct [where v = v and W = W and H = H and c = c1])
  case (exit s1)
  then have "\<not> low s2 \<le> high s2" by simp
  with exit show ?case by (simp add: searchResult_exit)
next
  case (pass s1)
  have st2: "solverState s2" using pass.hyps(1) pass.prems by (simp add: solverState_def)
  have True2: "low s2 \<le> high s2" using pass.hyps(2) pass.prems by simp
  have dl: "is_double (low s1)" and dh: "is_double (high s1)" and l12: "12 \<le> low s1"
    using pass.hyps(1) by (simp_all add: solverState_def)
  define m where "m = midpoint s1"
  have m2: "midpoint s2 = m" using pass.prems by (simp add: m_def midpoint_def)
  have mid: "low s1 \<le> m" "m \<le> high s1"
    using midpoint_between [OF dl dh pass.hyps(2)] by (simp_all add: m_def)
  have m0: "0 \<le> m" using mid l12 by linarith
  define t1 where "t1 = searchStep v W H c1 s1"
  define t2 where "t2 = searchStep v W H c2 s2"
  have r1: "searchResult v W H c1 s1 = searchResult v W H c1 t1"
    unfolding t1_def using pass.hyps(2) by (rule searchResult_continue)
  have r2: "searchResult v W H c2 s2 = searchResult v W H c2 t2"
    unfolding t2_def using True2 by (rule searchResult_continue)
  have st_t1: "solverState t1" unfolding t1_def by (rule solverState_step [OF pass.hyps(1,2)])
  have st_t2: "solverState t2" unfolding t2_def by (rule solverState_step [OF st2 True2])
  have up: "m \<le> rd (m + 1 / 2)"
    by (intro rd_ge_double) (simp_all add: m_def midpoint_def)
  have down: "rd (m - 1 / 2) \<le> m"
    by (intro rd_le_double) (simp_all add: m_def midpoint_def)
  have "bestSize (searchResult v W H c2 t2) \<le> bestSize (searchResult v W H c1 t1)"
  proof (cases "checkFits v m W H c2")
    case fits2: True
    then have fits1: "checkFits v m W H c1"
      using assms(2) m0 checkFits_count_mono by blast
    have a: "low t1 = rd (m + 1 / 2)" "high t1 = high s1" "bestSize t1 = m"
      unfolding t1_def using fits1 searchStep_fits [of v s1 W H c1] by (simp_all add: m_def)
    have b: "low t2 = rd (m + 1 / 2)" "high t2 = high s2" "bestSize t2 = m"
      unfolding t2_def using fits2 searchStep_fits [of v s2 W H c2] by (simp_all add: m2)
    show ?thesis
      using pass.prems a b up
      by (intro pass.IH [folded t1_def]) simp_all
  next
    case nofit2: False
    have b: "low t2 = low s2" "high t2 = rd (m - 1 / 2)" "bestSize t2 = bestSize s2"
      unfolding t2_def using nofit2 searchStep_nofit [of v s2 W H c2] by (simp_all add: m2)
    show ?thesis
    proof (cases "checkFits v m W H c1")
      case nofit1: False
      have a: "low t1 = low s1" "high t1 = rd (m - 1 / 2)" "bestSize t1 = bestSize s1"
        unfolding t1_def using nofit1 searchStep_nofit [of v s1 W H c1] by (simp_all add: m_def)
      show ?thesis
        using pass.prems a b
        by (intro pass.IH [folded t1_def]) simp_all
    next
      case fits1: True
      have a: "low t1 = rd (m + 1 / 2)" "high t1 = high s1" "bestSize t1 = m"
        unfolding t1_def using fits1 searchStep_fits [of v s1 W H c1] by (simp_all add: m_def)
      have lo: "m \<le> bestSize (searchResult v W H c1 t1)"
        using searchLoop_best [OF st_t1, of v W H c1] a up by auto
      have hi: "bestSize (searchResult v W H c2 t2) \<le> m"
        using searchLoop_best [OF st_t2, of v W H c2] b pass.prems mid down by auto
      from lo hi show ?thesis by linarith
    qed
  qed
  then show ?case unfolding r1 r2 .
qed

lemma searchLoop_passes:
  assumes "solverState s"
    and "high s - low s + 1 - 6 * ulp47 < 2 ^ n * (1 - 6 * ulp47)"
  shows "\<exists>k\<le>n. searchLoop v W H c s = Some ((searchStep v W H c ^^ k) s)
            \<and> \<not> low ((searchStep v W H c ^^ k) s) \<le> high ((searchStep v W H c ^^ k) s)
            \<and> (\<forall>j<k. solverState ((searchStep v W H c ^^ j) s)
                     \<and> low ((searchStep v W H c ^^ j) s) \<le> high ((searchStep v W H c ^^ j) s))"
  using assms
proof (induction n arbitrary: s)
  case 0
  then have "\<not> low s \<le> high s" by simp
  then have "searchLoop v W H c s = Some ((searchStep v W H c ^^ 0) s)
      \<and> \<not> low ((searchStep v W H c ^^ 0) s) \<le> high ((searchStep v W H c ^^ 0) s)"
    by (simp add: searchLoop_exit)
  then show ?case by simp
next
  case (Suc n)
  show ?case
  proof (cases "low s \<le> high s")
    case False
    then have "searchLoop v W H c s = Some ((searchStep v W H c ^^ 0) s)
        \<and> \<not> low ((searchStep v W H c ^^ 0) s) \<le> high ((searchStep v W H c ^^ 0) s)"
      by (simp add: searchLoop_exit)
    then show ?thesis by (intro exI [of _ 0]) simp
  next
    case True
    define t where "t = searchStep v W H c s"
    define P where "P = 2 ^ n * (1 - 6 * ulp47)"
    have st: "solverState t" unfolding t_def by (rule solverState_step [OF Suc.prems(1) True])
    have "2 ^ Suc n * (1 - 6 * ulp47) = 2 * P" by (simp add: P_def)
    then have "high s - low s + 1 - 6 * ulp47 < 2 * P" using Suc.prems(2) by simp
    moreover have "2 * high t - 2 * low t \<le> high s - low s - 1 + 6 * ulp47"
      unfolding t_def by (rule searchStep_gap [OF Suc.prems(1) True])
    ultimately have "high t - low t + 1 - 6 * ulp47 < P" by linarith
    then obtain k where k: "k \<le> n"
        "searchLoop v W H c t = Some ((searchStep v W H c ^^ k) t)"
        "\<not> low ((searchStep v W H c ^^ k) t) \<le> high ((searchStep v W H c ^^ k) t)"
        "\<forall>j<k. solverState ((searchStep v W H c ^^ j) t)
               \<and> low ((searchStep v W H c ^^ j) t) \<le> high ((searchStep v W H c ^^ j) t)"
      using Suc.IH [OF st] unfolding P_def by blast
    have shift: "(searchStep v W H c ^^ j) t = (searchStep v W H c ^^ Suc j) s" for j
      unfolding t_def by (simp add: funpow_swap1)
    have "\<forall>j<Suc k. solverState ((searchStep v W H c ^^ j) s)
               \<and> low ((searchStep v W H c ^^ j) s) \<le> high ((searchStep v W H c ^^ j) s)"
    proof (intro allI impI)
      fix j assume j: "j < Suc k"
      show "solverState ((searchStep v W H c ^^ j) s)
               \<and> low ((searchStep v W H c ^^ j) s) \<le> high ((searchStep v W H c ^^ j) s)"
      proof (cases j)
        case 0
        with Suc.prems(1) True show ?thesis by simp
      next
        case (Suc i)
        with j have "i < k" by simp
        with k(4) show ?thesis unfolding Suc shift [symmetric] by blast
      qed
    qed
    moreover have "searchLoop v W H c s = Some ((searchStep v W H c ^^ Suc k) s)"
      using k(2) True unfolding shift [symmetric] t_def by (simp add: searchLoop_continue)
    moreover have "\<not> low ((searchStep v W H c ^^ Suc k) s) \<le> high ((searchStep v W H c ^^ Suc k) s)"
      using k(3) unfolding shift .
    moreover have "Suc k \<le> Suc n" using k(1) by simp
    ultimately show ?thesis by blast
  qed
qed

subsection \<open>The solver\<close>

lemma target_ge1: "1 \<le> target e"
  by (simp add: target_def)

lemma is_double_target: "is_double (target e)"
  by (simp add: target_def max_def)

lemma maxSize_le40: "maxSize v W H \<le> 40"
  by (simp add: maxSize_def)

lemma is_double_maxSize: "is_double W \<Longrightarrow> is_double H \<Longrightarrow> is_double (maxSize v W H)"
  by (simp add: maxSize_def min_def)

lemma startState_simps [simp]:
  "low (startState v W H) = 12" "high (startState v W H) = maxSize v W H"
  "bestSize (startState v W H) = 12"
  by (simp_all add: startState_def minSize_def)

lemma solverState_start: "solverState (startState v (target w) (target h))"
  by (simp add: solverState_def is_double_maxSize is_double_target maxSize_le40)

lemma fontSizePx_fitSolver:
  "fontSizePx (fitSolver w h c v)
     = bestSize (searchResult v (target w) (target h) c (startState v (target w) (target h)))"
  by (simp add: fitSolver_def Let_def searchResult_def startState_def)

lemma shouldScroll_fitSolver:
  "shouldScroll (fitSolver w h c v) =
     (fontSizePx (fitSolver w h c v) = 12 \<and> \<not> checkFits v 12 (target w) (target h) c)"
  by (simp add: fitSolver_def Let_def)

lemma fitSolver_cases:
  "fontSizePx (fitSolver w h c v) = 12
   \<or> (12 \<le> fontSizePx (fitSolver w h c v)
      \<and> fontSizePx (fitSolver w h c v) \<le> maxSize v (target w) (target h)
      \<and> checkFits v (fontSizePx (fitSolver w h c v)) (target w) (target h) c)"
  using searchLoop_best [where s = "startState v (target w) (target h)" and v = v
      and W = "target w" and H = "target h" and c = c, OF solverState_start]
  by (simp add: fontSizePx_fitSolver)

lemma fits_min_of_fits:
  assumes "12 \<le> s" "checkFits v s (target w) (target h) c"
  shows "checkFits v 12 (target w) (target h) c"
proof -
  have "0 \<le> target w" "0 \<le> target h"
    using target_ge1 [of w] target_ge1 [of h] by linarith+
  with assms show ?thesis
    using checkFits_size_mono [of 12 s "target w" "target h" v c] by simp
qed

lemma shouldScroll_iff_min:
  "shouldScroll (fitSolver w h c v) = (\<not> checkFits v 12 (target w) (target h) c)"
  using fitSolver_cases [of w h c v] fits_min_of_fits [of "fontSizePx (fitSolver w h c v)" v w h c]
  by (auto simp: shouldScroll_fitSolver)

lemma noSizeFits_iff_min:
  assumes "minSize \<le> hi"
  shows "noSizeFits v (target w) (target h) c minSize hi = (\<not> checkFits v 12 (target w) (target h) c)"
proof
  assume "noSizeFits v (target w) (target h) c minSize hi"
  with assms show "\<not> checkFits v 12 (target w) (target h) c"
    by (auto simp: noSizeFits_def minSize_def)
next
  assume "\<not> checkFits v 12 (target w) (target h) c"
  then show "noSizeFits v (target w) (target h) c minSize hi"
    using fits_min_of_fits [of _ v w h c] by (auto simp: noSizeFits_def minSize_def)
qed

lemma start_gap:
  "high (startState v (target w) (target h)) - low (startState v (target w) (target h))
     + 1 - 6 * ulp47 < 2 ^ 5 * (1 - 6 * ulp47)"
proof -
  have "maxSize v (target w) (target h) \<le> 40" by (rule maxSize_le40)
  then show ?thesis using ulp47_bounds by simp
qed

subsection \<open>Every pass of the solver moves a bound by the precision\<close>

lemma searchStep_gap_lower:
  assumes st: "solverState s" and le: "low s \<le> high s"
    and fits: "checkFits v (midpoint s) W H c"
  shows "high s - low s - 1 - 6 * ulp47
         \<le> 2 * high (searchStep v W H c s) - 2 * low (searchStep v W H c s)"
proof -
  have dl: "is_double (low s)" and dh: "is_double (high s)" and l12: "12 \<le> low s"
    and h40: "high s \<le> 40" using st by (simp_all add: solverState_def)
  have mid: "low s \<le> midpoint s" "midpoint s \<le> high s"
    using midpoint_between [OF dl dh le] by simp_all
  note near = midpoint_near [OF st le]
  define X where "X = midpoint s + 1 / 2"
  have X2: "2 * X = 2 * midpoint s + 1" by (simp add: X_def)
  have "\<bar>X\<bar> < 128" using mid l12 h40 X2 by linarith
  then have "rd X \<le> X + ulp47" by (rule rd_near)
  with near X2 show ?thesis
    unfolding searchStep_fits [OF fits] X_def [symmetric] by linarith
qed

lemma gapOK_step:
  assumes g: "gapOK g" and g0: "0 \<le> g"
    and up: "2 * g' \<le> g - 1 + 6 * ulp47" and lo: "g - 1 - 6 * ulp47 \<le> 2 * g'"
  shows "gapOK g'"
proof -
  note u = ulp47_bounds
  consider "1 / 10 \<le> g \<and> g \<le> 4 / 10" | "121 / 100 \<le> g \<and> g \<le> 17 / 10"
    | "35 / 10 \<le> g \<and> g \<le> 43 / 10" | "92 / 10 \<le> g \<and> g \<le> 955 / 100"
    | "195 / 10 \<le> g \<and> g \<le> 20"
    using g g0 unfolding gapOK_def by linarith
  then show ?thesis
  proof cases
    case 1
    then have "g' < 0" using up u by linarith
    then show ?thesis by (simp add: gapOK_def)
  next
    case 2
    then have "1 / 10 \<le> g' \<and> g' \<le> 4 / 10" using up lo u by linarith
    then show ?thesis by (simp add: gapOK_def)
  next
    case 3
    then have "121 / 100 \<le> g' \<and> g' \<le> 17 / 10" using up lo u by linarith
    then show ?thesis by (simp add: gapOK_def)
  next
    case 4
    then have "35 / 10 \<le> g' \<and> g' \<le> 43 / 10" using up lo u by linarith
    then show ?thesis by (simp add: gapOK_def)
  next
    case 5
    then have "92 / 10 \<le> g' \<and> g' \<le> 955 / 100" using up lo u by linarith
    then show ?thesis by (simp add: gapOK_def)
  qed
qed

lemma reachState_start: "reachState (startState v (target w) (target h))"
proof -
  define h0 where "h0 = maxSize v (target w) (target h)"
  have st: "solverState (startState v (target w) (target h))" by (rule solverState_start)
  have d: "is_double h0" and h40: "h0 \<le> 40"
    using st by (simp_all add: solverState_def h0_def)
  have "is_double (h0 + 1 / 2) \<or> gapOK (h0 - 12)"
  proof (cases "h0 < 12")
    case True
    then show ?thesis by (simp add: gapOK_def)
  next
    case False
    then have h12: "12 \<le> h0" by simp
    show ?thesis
    proof (cases "is_double (h0 + 1 / 2)")
      case True
      then show ?thesis ..
    next
      case False
      have "(31 / 2 < h0 \<and> h0 < 16) \<or> (63 / 2 < h0 \<and> h0 < 32)"
        using d h12 h40 False by (rule half_step_range)
      then have "(35 / 10 \<le> h0 - 12 \<and> h0 - 12 \<le> 43 / 10) \<or> (195 / 10 \<le> h0 - 12 \<and> h0 - 12 \<le> 20)"
        by linarith
      then have "gapOK (h0 - 12)" unfolding gapOK_def by blast
      then show ?thesis ..
    qed
  qed
  with st show ?thesis by (simp add: reachState_def h0_def)
qed

lemma reachState_step:
  assumes r: "reachState s" and le: "low s \<le> high s"
  shows "reachState (searchStep v W H c s)"
proof -
  have st: "solverState s" using r by (simp add: reachState_def)
  have dl: "is_double (low s)" and dh: "is_double (high s)" and l12: "12 \<le> low s"
    and h40: "high s \<le> 40" using st by (simp_all add: solverState_def)
  have mid: "low s \<le> midpoint s" "midpoint s \<le> high s"
    using midpoint_between [OF dl dh le] by simp_all
  have st': "solverState (searchStep v W H c s)" by (rule solverState_step [OF st le])
  have "is_double (high (searchStep v W H c s) + 1 / 2)
        \<or> gapOK (high (searchStep v W H c s) - low (searchStep v W H c s))"
  proof (cases "checkFits v (midpoint s) W H c")
    case False
    have dm: "is_double (midpoint s - 1 / 2)"
      using mid l12 h40 by (intro is_double_minus_half) (simp_all add: midpoint_def)
    have "high (searchStep v W H c s) = midpoint s - 1 / 2"
      using searchStep_nofit(2) [OF False] rd_double [OF dm] by simp
    then have "high (searchStep v W H c s) + 1 / 2 = midpoint s" by simp
    then have "is_double (high (searchStep v W H c s) + 1 / 2)"
      by (simp add: midpoint_def)
    then show ?thesis ..
  next
    case True
    show ?thesis
    proof (cases "is_double (high s + 1 / 2)")
      case d: True
      then show ?thesis using searchStep_fits(2) [OF True] by simp
    next
      case False
      with r have g: "gapOK (high s - low s)" by (simp add: reachState_def)
      define g' where "g' = high (searchStep v W H c s) - low (searchStep v W H c s)"
      have g'2: "2 * g' = 2 * high (searchStep v W H c s) - 2 * low (searchStep v W H c s)"
        by (simp add: g'_def)
      have "gapOK g'"
        using g
      proof (rule gapOK_step)
        show "0 \<le> high s - low s" using le by simp
        show "2 * g' \<le> high s - low s - 1 + 6 * ulp47"
          unfolding g'2 by (rule searchStep_gap [OF st le])
        show "high s - low s - 1 - 6 * ulp47 \<le> 2 * g'"
          unfolding g'2 by (rule searchStep_gap_lower [OF st le True])
      qed
      then show ?thesis unfolding g'_def ..
    qed
  qed
  with st' show ?thesis by (simp add: reachState_def)
qed

lemma searchStep_raises:
  assumes r: "reachState s" and le: "low s \<le> high s"
    and fits: "checkFits v (midpoint s) W H c"
  shows "low s + 1 / 2 \<le> low (searchStep v W H c s)"
proof -
  have st: "solverState s" using r by (simp add: reachState_def)
  have dl: "is_double (low s)" and dh: "is_double (high s)" and l12: "12 \<le> low s"
    and h40: "high s \<le> 40" using st by (simp_all add: solverState_def)
  have mid: "low s \<le> midpoint s" "midpoint s \<le> high s"
    using midpoint_between [OF dl dh le] by simp_all
  have dm: "is_double (midpoint s)" by (simp add: midpoint_def)
  have low': "low (searchStep v W H c s) = rd (midpoint s + 1 / 2)"
    by (rule searchStep_fits(1) [OF fits])
  show ?thesis
  proof (cases "low s < midpoint s")
    case True
    have "low s + 1 / 2 \<le> rd (midpoint s + 1 / 2)"
      using dl dm l12 True mid(2) h40 by (intro double_step_up) simp_all
    then show ?thesis by (simp only: low')
  next
    case False
    with mid have eq: "midpoint s = low s" by simp
    show ?thesis
    proof (cases "is_double (low s + 1 / 2)")
      case True
      then show ?thesis unfolding low' eq by (simp add: rd_double)
    next
      case bad: False
      have "\<not> low s < high s"
      proof
        assume "low s < high s"
        then have "low s < rd (rd (low s + high s) / 2)"
          using dl dh l12 h40 bad by (intro midpoint_above) simp_all
        then show False using eq by (simp add: midpoint_def)
      qed
      with le have hl: "high s = low s" by simp
      with bad r have "gapOK 0" by (simp add: reachState_def)
      then show ?thesis by (simp add: gapOK_def)
    qed
  qed
qed

lemma searchStep_literal:
  assumes r: "reachState s" and le: "low s \<le> high s"
  shows "(low s + precision \<le> low (searchStep v W H c s) \<and> high (searchStep v W H c s) = high s)
       \<or> (low (searchStep v W H c s) = low s \<and> high (searchStep v W H c s) \<le> high s - precision)"
proof (cases "checkFits v (midpoint s) W H c")
  case True
  then show ?thesis
    using searchStep_raises [OF r le True] searchStep_fits(2) [OF True]
    by (simp add: precision_def)
next
  case False
  have st: "solverState s" using r by (simp add: reachState_def)
  show ?thesis
    using searchStep_progress [OF st le, of v W H c] False by blast
qed

lemma reachState_funpow:
  assumes "reachState s"
    and "\<forall>i<j. low ((searchStep v W H c ^^ i) s) \<le> high ((searchStep v W H c ^^ i) s)"
  shows "reachState ((searchStep v W H c ^^ j) s)"
  using assms(2)
proof (induction j)
  case 0
  show ?case using assms(1) by simp
next
  case (Suc j)
  have "reachState ((searchStep v W H c ^^ j) s)" using Suc by simp
  moreover have "low ((searchStep v W H c ^^ j) s) \<le> high ((searchStep v W H c ^^ j) s)"
    using Suc.prems by simp
  ultimately have "reachState (searchStep v W H c ((searchStep v W H c ^^ j) s))"
    by (rule reachState_step)
  then show ?case by simp
qed

lemma passState_Suc:
  "passState w h c v (Suc j) = searchStep v (target w) (target h) c (passState w h c v j)"
  by (simp add: passState_def)

lemma solver_passes:
  "\<exists>n\<le>5. searchLoop v (target w) (target h) c (startState v (target w) (target h))
            = Some (passState w h c v n)
        \<and> \<not> low (passState w h c v n) \<le> high (passState w h c v n)
        \<and> (\<forall>j<n. low (passState w h c v j) \<le> high (passState w h c v j))"
  unfolding passState_def
  using searchLoop_passes [where s = "startState v (target w) (target h)" and n = 5
      and v = v and W = "target w" and H = "target h" and c = c, OF solverState_start start_gap]
  by blast

lemma reachState_pass:
  assumes "\<forall>i<j. low (passState w h c v i) \<le> high (passState w h c v i)"
  shows "reachState (passState w h c v j)"
  unfolding passState_def
  using assms unfolding passState_def by (intro reachState_funpow reachState_start)

subsection \<open>The list of overlays\<close>

lemma orZero_id: "orZero v = v"
  by (simp add: orZero_def)

lemma charCountOf_pos: "0 < charCountOf b"
  by (simp add: charCountOf_def)

lemma renderBlock_degenerate: "(renderBlock cw ch b idx = None) = degenerate b"
  by (simp add: renderBlock_def Let_def degenerate_def)

lemma rows_Some:
  "map Some (List.map_filter id (map (\<lambda>(idx, b). renderBlock cw ch b idx) (enumerate n bs)))
   = map (\<lambda>(idx, b). renderBlock cw ch b idx)
       (filter (\<lambda>(idx, b). \<not> degenerate b) (enumerate n bs))"
proof (induction bs arbitrary: n)
  case Nil
  show ?case by (simp add: map_filter_simps)
next
  case (Cons b bs)
  show ?case
  proof (cases "renderBlock cw ch b n")
    case None
    then have "degenerate b" using renderBlock_degenerate [of cw ch b n] by simp
    with None Cons.IH [of "Suc n"] show ?thesis by (simp add: map_filter_simps)
  next
    case (Some ov)
    then have "\<not> degenerate b" using renderBlock_degenerate [of cw ch b n] by simp
    with Some Cons.IH [of "Suc n"] show ?thesis by (simp add: map_filter_simps)
  qed
qed

lemma length_filter_enumerate:
  "length (filter (\<lambda>(idx, b). P b) (enumerate n bs)) = length (filter P bs)"
  by (induction bs arbitrary: n) simp_all

lemma length_composeOverlays:
  "length (composeOverlays cw ch bs) = length bs - length (filter degenerate bs)"
proof -
  have "length (composeOverlays cw ch bs) = length (map Some (composeOverlays cw ch bs))"
    by simp
  also have "\<dots> = length (filter (\<lambda>b. \<not> degenerate b) bs)"
    unfolding composeOverlays_def mapBlocks_def rows_Some
    by (simp add: length_filter_enumerate)
  also have "\<dots> = length bs - length (filter degenerate bs)"
    using sum_length_filter_compl [of degenerate bs] by simp
  finally show ?thesis .
qed

lemma descriptor_index:
  "map_option descriptorOf (renderBlock cw ch b i) = map_option descriptorOf (renderBlock cw ch b j)"
  by (simp add: renderBlock_def Let_def descriptorOf_def)

lemma descriptors_rows:
  "map descriptorOf (List.map_filter id (map (\<lambda>(idx, b). renderBlock cw ch b idx) (enumerate n bs)))
   = List.map_filter (\<lambda>b. map_option descriptorOf (renderBlock cw ch b 0)) bs"
proof (induction bs arbitrary: n)
  case Nil
  show ?case by (simp add: map_filter_simps)
next
  case (Cons b bs)
  show ?case
    using Cons.IH [of "Suc n"] descriptor_index [of cw ch b n 0]
    by (cases "renderBlock cw ch b n"; cases "renderBlock cw ch b 0")
       (simp_all add: map_filter_simps)
qed

lemma map_filter_drop:
  "f d = None \<Longrightarrow> List.map_filter f (xs @ d # ys) = List.map_filter f (xs @ ys)"
  by (simp add: List.map_filter_def)

lemma descriptors_drop:
  assumes "degenerate d"
  shows "map descriptorOf (composeOverlays cw ch (xs @ d # ys))
         = map descriptorOf (composeOverlays cw ch (xs @ ys))"
proof -
  have "map_option descriptorOf (renderBlock cw ch d 0) = None"
    using assms by (simp add: renderBlock_degenerate)
  then show ?thesis
    unfolding composeOverlays_def mapBlocks_def descriptors_rows
    by (rule map_filter_drop)
qed

section \<open>Example inputs\<close>

text \<open>Two blocks of 300 by 200 (on a 1000 by 1000 image) with two characters each, a
  block with three vertices, and a state of the component that holds them.\<close>

definition exampleBlockA :: translatedBlock where
  "exampleBlockA =
     \<lparr>blockText = utf16 ''Hello'',
      boundingBox = \<lparr>vertices = [\<lparr>vx = 100, vy = 100\<rparr>, \<lparr>vx = 400, vy = 100\<rparr>,
                                  \<lparr>vx = 400, vy = 300\<rparr>, \<lparr>vx = 100, vy = 300\<rparr>]\<rparr>,
      translatedText = [0x4F60, 0x597D],
      orientation = horizontal\<rparr>"

definition exampleBlockB :: translatedBlock where
  "exampleBlockB =
     \<lparr>blockText = utf16 ''World'',
      boundingBox = \<lparr>vertices = [\<lparr>vx = 500, vy = 600\<rparr>, \<lparr>vx = 800, vy = 600\<rparr>,
                                  \<lparr>vx = 800, vy = 800\<rparr>, \<lparr>vx = 500, vy = 800\<rparr>]\<rparr>,
      translatedText = [0x4E16, 0x754C],
      orientation = horizontal\<rparr>"

definition exampleBlockDegenerate :: translatedBlock where
  "exampleBlockDegenerate =
     \<lparr>blockText = utf16 ''x'',
      boundingBox = \<lparr>vertices = [\<lparr>vx = 10, vy = 10\<rparr>, \<lparr>vx = 90, vy = 10\<rparr>, \<lparr>vx = 90, vy = 50\<rparr>]\<rparr>,
      translatedText = [0x4E09],
      orientation = vertical\<rparr>"

definition exampleState :: app_state where
  "exampleState =
     \<lparr>appImage = Some (utf16 ''data:image/png;base64,AAAA''),
      isProcessing = False,
      status = utf16 ''Translation complete!'',
      translatedBlocks = [exampleBlockA, exampleBlockDegenerate, exampleBlockB],
      imageSize = (2000, 2000),
      appError = None,
      processingTime = Some (5 / 2),
      elapsedSeconds = 3,
      isSettingsOpen = False,
      apiKey = [],
      displayScale = 1 / 2,
      imageRef = Some \<lparr>clientWidth = 1000, clientHeight = 1000\<rparr>\<rparr>"

lemmas example_defs =
  exampleBlockA_def exampleBlockB_def exampleBlockDegenerate_def exampleState_def

text \<open>
  A raw block whose \<open>box_2d\<close> is \<open>[0, 0, 104, 9]\<close> gives, on an image shown at 1000 by
  1000, a rectangle of width 9 and height 104. The adapter on some raw orientations.
\<close>

lemma narrow_block_rect:
  "displayRect
     (vertices (boundingBox (formatBlock
        \<lparr>raw_text = utf16 ''1'', raw_translatedText = [0x4E00],
         raw_orientation = JSStr (utf16 ''horizontal''), raw_box_2d = (0, 0, 104, 9)\<rparr>)))
     1000 1000
   = \<lparr>rect_x = 0, rect_y = 0, rect_width = 9, rect_height = 104\<rparr>"
  by (simp add: formatBlock_def displayRect_def mathMin_def mathMax_def orZero_id)

lemma formatBlock_orientation_examples:
  "orientation (formatBlock (b\<lparr>raw_orientation := JSStr (utf16 ''vertical'')\<rparr>)) = vertical"
  "orientation (formatBlock (b\<lparr>raw_orientation := JSStr (utf16 ''Vertical'')\<rparr>)) = horizontal"
  "orientation (formatBlock (b\<lparr>raw_orientation := JSStr (utf16 ''vertcal'')\<rparr>)) = horizontal"
  "orientation (formatBlock (b\<lparr>raw_orientation := JSNull\<rparr>)) = horizontal"
  "orientation (formatBlock (b\<lparr>raw_orientation := JSUndefined\<rparr>)) = horizontal"
  by (simp_all add: formatBlock_def utf16_def split: prod.splits)

text \<open>
  The solver on some rectangles, horizontal. On 300 by 200 with ten characters the probes
  26, 33.25, 36.875, 38.6875 and 39.59375 all fit. The size 12 does not fit five characters
  in 63 by 20: \<open>12 * 1.05\<close> is the double just above 12.6, so that
  \<open>63 / (12 * 1.05)\<close> is below 5, four characters go in a line and two lines are
  needed. Hence a rectangle of 67 by 24 with five characters overflows. On 2545 by 24 with
  160 characters the probe 15.125 does not fit, because \<open>2541 / (15.125 * 1.05)\<close>,
  which is 160 in the rationals, is below 160 in double arithmetic; the solver returns
  14.21875.
\<close>

lemma fit_example:
  "fitSolver 300 200 10 False = \<lparr>fontSizePx = 1267 / 32, finalRem = 1267 / 512, shouldScroll = False\<rparr>"
  by (simp add: eval_fit)

lemma rounding_examples:
  "rd (12 / 10) = 5404319552844595 / 4503599627370496"
  "rd (105 / 100) = 4728779608739021 / 4503599627370496"
  "\<not> checkFits False 12 63 20 5"
  "checkFits False 12 5 100 1"
  by (simp_all add: checkFits_def eval_rd)

lemma fit_rounding_examples:
  "shouldScroll (fitSolver 67 24 5 False)"
  "fontSizePx (fitSolver 2545 24 160 False) = 455 / 32"
  by (simp_all add: eval_fit)

text \<open>
  A state from which the loop does not return, outside the range of the solver: at
  \<open>low = high = 2 ^ 53\<close>, in a rectangle of \<open>2 ^ 60\<close> by \<open>2 ^ 60\<close> with one
  character, the probe \<open>2 ^ 53\<close> fits and \<open>mid + 0.5\<close> rounds to \<open>mid\<close>, so that a
  pass leaves the state as it is.
\<close>

definition stuckState :: search_state where
  "stuckState = \<lparr>low = 9007199254740992, high = 9007199254740992, bestSize = 9007199254740992\<rparr>"

lemma searchStep_stuck:
  "searchStep False 1152921504606846976 1152921504606846976 1 stuckState = stuckState"
  by (simp add: stuckState_def searchStep_def checkFits_def precision_def eval_rd)

lemma searchLoop_stuck:
  "searchLoop False 1152921504606846976 1152921504606846976 1 stuckState = None"
proof -
  have "searchLoop v W H c s = Some r \<Longrightarrow>
        \<not> (v = False \<and> W = 1152921504606846976 \<and> H = 1152921504606846976 \<and> c = 1
           \<and> s = stuckState)"
    for v W H c s r
  proof (induction rule: searchLoop.raw_induct [rotated 1, consumes 1])
    case (1 f v W H c s r)
    show ?case
    proof
      assume a: "v = False \<and> W = 1152921504606846976 \<and> H = 1152921504606846976 \<and> c = 1
           \<and> s = stuckState"
      have "low stuckState \<le> high stuckState" by (simp add: stuckState_def)
      with 1(2) a
      have "f False 1152921504606846976 1152921504606846976 1
              (searchStep False 1152921504606846976 1152921504606846976 1 stuckState) = Some r"
        by simp
      then have "f False 1152921504606846976 1152921504606846976 1 stuckState = Some r"
        by (simp only: searchStep_stuck)
      then have "\<not> (False = False \<and> (1152921504606846976::rat) = 1152921504606846976
           \<and> (1152921504606846976::rat) = 1152921504606846976 \<and> (1::nat) = 1
           \<and> stuckState = stuckState)"
        by (rule 1(1))
      then show False by simp
    qed
  qed
  then have n: "searchLoop False 1152921504606846976 1152921504606846976 1 stuckState \<noteq> Some r"
    for r by blast
  show ?thesis
  proof (cases "searchLoop False 1152921504606846976 1152921504606846976 1 stuckState")
    case None
    then show ?thesis .
  next
    case (Some r)
    with n [of r] show ?thesis by simp
  qed
qed

section \<open>The claims\<close>

text \<open>
  C6. For a rectangle of width 20 and height 20, horizontal orientation and 200 characters,
  the fit solver returns the font size 12 and reports overflow. The search probes 14,
  12.75 and 12.125, none of which fits, and the size 12 does not fit either.
\<close>

theorem C6_overflow_example:
  "fontSizePx (fitSolver 20 20 200 False) = 12 \<and> shouldScroll (fitSolver 20 20 200 False)"
  by (simp add: eval_fit)

text \<open>
  C1, as stated, fails: the returned font size is not always below the ceiling
  \<open>maxSize\<close>. For a rectangle of width 9 and height 104 with one character, horizontal,
  the padded width is 5, so the ceiling is 5; the loop does not run and the solver returns
  its initial \<open>bestSize\<close>, 12.
\<close>

theorem C1_ceiling_counterexample:
  "\<not> fontSizePx (fitSolver 9 104 1 False) \<le> maxSize False (target 9) (target 104)"
  by (simp add: eval_fit)

text \<open>
  C1, amended. For every rectangle, character count and orientation the returned font size
  is at least 12 and at most 40, and it is at most the larger of 12 and the ceiling
  \<open>maxSize\<close> (\<open>min 40 targetH\<close> when vertical, \<open>min 40 targetW\<close> when horizontal):
  it stays below the ceiling whenever the ceiling is at least 12.
\<close>

theorem C1_bounds:
  "12 \<le> fontSizePx (fitSolver w h c v) \<and> fontSizePx (fitSolver w h c v) \<le> 40
   \<and> fontSizePx (fitSolver w h c v) \<le> max 12 (maxSize v (target w) (target h))"
  using fitSolver_cases [of w h c v] maxSize_le40 [of v "target w" "target h"]
  by auto

text \<open>
  C4. With the rectangle and the orientation fixed, a larger character count never gives a
  larger font size.
\<close>

theorem C4_monotone:
  "c1 \<le> c2 \<Longrightarrow> fontSizePx (fitSolver w h c2 v) \<le> fontSizePx (fitSolver w h c1 v)"
  unfolding fontSizePx_fitSolver
  by (rule searchLoop_count_mono [OF solverState_start]) simp_all

theorem C4_monotone_witness:
  "(10::nat) \<le> 200
   \<and> fontSizePx (fitSolver 300 200 200 False) \<le> fontSizePx (fitSolver 300 200 10 False)"
  using C4_monotone [of 10 200 300 200 False] by simp

text \<open>
  C2, as stated, fails where the search range is empty. For a rectangle of width 9 and
  height 104 with one character, horizontal, the range runs from 12 to the ceiling 5, so no
  size in it fits; the size 12 fits (one character on one line, of a height just below
  14.4, in a height of 100), and the solver reports no overflow.
\<close>

theorem C2_range_counterexample:
  "shouldScroll (fitSolver 9 104 1 False)
   \<noteq> noSizeFits False (target 9) (target 104) 1 minSize (maxSize False (target 9) (target 104))"
proof -
  have "\<not> shouldScroll (fitSolver 9 104 1 False)"
    by (simp add: eval_fit)
  moreover have m: "maxSize False (target 9) (target 104) = 5"
    by (simp add: maxSize_def target_def padding_def eval_rd)
  have "noSizeFits False (target 9) (target 104) 1 minSize (maxSize False (target 9) (target 104))"
    unfolding m noSizeFits_def minSize_def by auto
  ultimately show ?thesis by simp
qed

text \<open>
  C2, amended. The solver reports overflow exactly when the minimum size 12 does not fit;
  whenever the search range is not empty (the ceiling is at least 12) this is the same as
  no size of the range fitting. When it reports overflow the font size is 12, and when it
  reports none the returned font size fits.
\<close>

theorem C2_overflow:
  "shouldScroll (fitSolver w h c v) = (\<not> checkFits v 12 (target w) (target h) c)
   \<and> (minSize \<le> maxSize v (target w) (target h) \<longrightarrow>
        shouldScroll (fitSolver w h c v)
        = noSizeFits v (target w) (target h) c minSize (maxSize v (target w) (target h)))
   \<and> (shouldScroll (fitSolver w h c v) \<longrightarrow> fontSizePx (fitSolver w h c v) = 12)
   \<and> (\<not> shouldScroll (fitSolver w h c v) \<longrightarrow>
        checkFits v (fontSizePx (fitSolver w h c v)) (target w) (target h) c)"
proof (intro conjI impI)
  show "shouldScroll (fitSolver w h c v) = (\<not> checkFits v 12 (target w) (target h) c)"
    by (rule shouldScroll_iff_min)
next
  assume "minSize \<le> maxSize v (target w) (target h)"
  then show "shouldScroll (fitSolver w h c v)
        = noSizeFits v (target w) (target h) c minSize (maxSize v (target w) (target h))"
    by (simp add: shouldScroll_iff_min noSizeFits_iff_min)
next
  assume "shouldScroll (fitSolver w h c v)"
  then show "fontSizePx (fitSolver w h c v) = 12"
    by (simp add: shouldScroll_fitSolver)
next
  assume "\<not> shouldScroll (fitSolver w h c v)"
  then show "checkFits v (fontSizePx (fitSolver w h c v)) (target w) (target h) c"
    using fitSolver_cases [of w h c v] by (auto simp: shouldScroll_fitSolver)
qed

theorem C2_overflow_witness:
  "minSize \<le> maxSize False (target 20) (target 20)
   \<and> shouldScroll (fitSolver 20 20 200 False)
   \<and> noSizeFits False (target 20) (target 20) 200 minSize (maxSize False (target 20) (target 20))
   \<and> fontSizePx (fitSolver 20 20 200 False) = 12
   \<and> minSize \<le> maxSize False (target 300) (target 200)
   \<and> \<not> shouldScroll (fitSolver 300 200 10 False)
   \<and> \<not> noSizeFits False (target 300) (target 200) 10 minSize (maxSize False (target 300) (target 200))
   \<and> checkFits False (fontSizePx (fitSolver 300 200 10 False)) (target 300) (target 200) 10"
proof -
  have a: "minSize \<le> maxSize False (target 20) (target 20)"
    by (simp add: minSize_def maxSize_def target_def padding_def eval_rd)
  have b: "shouldScroll (fitSolver 20 20 200 False)"
    by (simp add: eval_fit)
  have c: "minSize \<le> maxSize False (target 300) (target 200)"
    by (simp add: minSize_def maxSize_def target_def padding_def eval_rd)
  have d: "\<not> shouldScroll (fitSolver 300 200 10 False)"
    by (simp add: eval_fit)
  show ?thesis
    using a b c d C2_overflow [of 20 20 200 False] C2_overflow [of 300 200 10 False]
    by blast
qed

text \<open>
  C8. For every rectangle, character count and orientation the loop of the solver returns:
  it ends after some number \<open>n\<close> of passes, at most 5, in the state \<open>passState w h c v n\<close>,
  where \<open>low > high\<close>, while \<open>low \<le> high\<close> holds in the states before. Every pass
  that the loop makes (pass \<open>j\<close> is made when \<open>low \<le> high\<close> holds in the states 0 to
  \<open>j\<close>; then \<open>j < 5\<close>) either raises \<open>low\<close> by at least the precision 0.5 and
  leaves \<open>high\<close> as it is, or leaves \<open>low\<close> as it is and lowers \<open>high\<close> by at
  least 0.5, in double arithmetic.
\<close>

theorem C8_termination:
  "(\<exists>n\<le>5. searchLoop v (target w) (target h) c (startState v (target w) (target h))
            = Some (passState w h c v n)
        \<and> \<not> low (passState w h c v n) \<le> high (passState w h c v n)
        \<and> (\<forall>j<n. low (passState w h c v j) \<le> high (passState w h c v j)))
   \<and> ((\<forall>i\<le>j. low (passState w h c v i) \<le> high (passState w h c v i)) \<longrightarrow>
        j < 5
        \<and> ((low (passState w h c v j) + precision \<le> low (passState w h c v (Suc j))
             \<and> high (passState w h c v (Suc j)) = high (passState w h c v j))
           \<or> (low (passState w h c v (Suc j)) = low (passState w h c v j)
             \<and> high (passState w h c v (Suc j)) \<le> high (passState w h c v j) - precision)))"
proof (intro conjI impI)
  show "\<exists>n\<le>5. searchLoop v (target w) (target h) c (startState v (target w) (target h))
            = Some (passState w h c v n)
        \<and> \<not> low (passState w h c v n) \<le> high (passState w h c v n)
        \<and> (\<forall>j<n. low (passState w h c v j) \<le> high (passState w h c v j))"
    by (rule solver_passes)
next
  assume A: "\<forall>i\<le>j. low (passState w h c v i) \<le> high (passState w h c v i)"
  obtain n where n: "n \<le> 5" "\<not> low (passState w h c v n) \<le> high (passState w h c v n)"
    using solver_passes [of v w h c] by blast
  have "\<not> n \<le> j" using A n(2) by blast
  with n(1) show "j < 5" by linarith
next
  assume A: "\<forall>i\<le>j. low (passState w h c v i) \<le> high (passState w h c v i)"
  have r: "reachState (passState w h c v j)" using A by (intro reachState_pass) simp
  have le: "low (passState w h c v j) \<le> high (passState w h c v j)" using A by simp
  show "(low (passState w h c v j) + precision \<le> low (passState w h c v (Suc j))
             \<and> high (passState w h c v (Suc j)) = high (passState w h c v j))
           \<or> (low (passState w h c v (Suc j)) = low (passState w h c v j)
             \<and> high (passState w h c v (Suc j)) \<le> high (passState w h c v j) - precision)"
    unfolding passState_Suc by (rule searchStep_literal [OF r le])
qed

theorem C8_termination_witness:
  "low (passState 20 20 200 False 0) \<le> high (passState 20 20 200 False 0)
   \<and> low (passState 20 20 200 False (Suc 0)) = low (passState 20 20 200 False 0)
   \<and> high (passState 20 20 200 False (Suc 0)) \<le> high (passState 20 20 200 False 0) - precision
   \<and> (\<exists>r. searchLoop False (target 20) (target 20) 200 (startState False (target 20) (target 20))
             = Some r \<and> \<not> low r \<le> high r)"
proof -
  have p0: "passState 20 20 200 False 0 = \<lparr>low = 12, high = 16, bestSize = 12\<rparr>"
    by (simp add: passState_def startState_def minSize_def maxSize_def target_def padding_def
        eval_rd)
  have p1: "passState 20 20 200 False (Suc 0) = \<lparr>low = 12, high = 27 / 2, bestSize = 12\<rparr>"
    unfolding passState_Suc p0
    by (simp add: target_def padding_def searchStep_def checkFits_def precision_def eval_rd)
  note C = C8_termination [where w = 20 and h = 20 and c = 200 and v = False and j = 0]
  from C have r: "\<exists>r. searchLoop False (target 20) (target 20) 200
      (startState False (target 20) (target 20)) = Some r \<and> \<not> low r \<le> high r"
    by blast
  from C have "(low (passState 20 20 200 False 0) + precision \<le> low (passState 20 20 200 False (Suc 0))
             \<and> high (passState 20 20 200 False (Suc 0)) = high (passState 20 20 200 False 0))
           \<or> (low (passState 20 20 200 False (Suc 0)) = low (passState 20 20 200 False 0)
             \<and> high (passState 20 20 200 False (Suc 0)) \<le> high (passState 20 20 200 False 0) - precision)"
    using p0 by simp
  then have "low (passState 20 20 200 False (Suc 0)) = low (passState 20 20 200 False 0)
             \<and> high (passState 20 20 200 False (Suc 0)) \<le> high (passState 20 20 200 False 0) - precision"
    unfolding p0 p1 by (simp add: precision_def)
  with r show ?thesis using p0 by simp
qed

text \<open>
  C3. For four points the bounding box is computed as the spec gives it: the least
  coordinates, and the differences of the greatest and the least, scaled by the container
  size over 1000. The quadrilateral (100,100), (400,100), (400,300), (100,300) in a 1000 by
  1000 container gives the rectangle at (100,100) of width 300 and height 200. The overlay
  of a block that is not degenerate is placed at this rectangle.
\<close>

theorem C3_geometry:
  "displayRect [p1, p2, p3, p4] cw ch =
     \<lparr>rect_x = Min {vx p1, vx p2, vx p3, vx p4} * rat_of_nat cw / 1000,
      rect_y = Min {vy p1, vy p2, vy p3, vy p4} * rat_of_nat ch / 1000,
      rect_width = (Max {vx p1, vx p2, vx p3, vx p4} - Min {vx p1, vx p2, vx p3, vx p4})
                     * rat_of_nat cw / 1000,
      rect_height = (Max {vy p1, vy p2, vy p3, vy p4} - Min {vy p1, vy p2, vy p3, vy p4})
                     * rat_of_nat ch / 1000\<rparr>
   \<and> displayRect [\<lparr>vx = 100, vy = 100\<rparr>, \<lparr>vx = 400, vy = 100\<rparr>,
                   \<lparr>vx = 400, vy = 300\<rparr>, \<lparr>vx = 100, vy = 300\<rparr>] 1000 1000
       = \<lparr>rect_x = 100, rect_y = 100, rect_width = 300, rect_height = 200\<rparr>
   \<and> map_option (\<lambda>ov. \<lparr>rect_x = styleLeft ov, rect_y = styleTop ov,
                         rect_width = styleWidth ov, rect_height = styleHeight ov\<rparr>)
        (renderBlock cw ch b idx)
       = (if degenerate b then None else Some (displayRect (vertices (boundingBox b)) cw ch))"
  by (simp add: displayRect_def mathMin_def mathMax_def orZero_id renderBlock_def Let_def
      degenerate_def)

text \<open>
  C5. The fields that the solver decides (font size and the three fields set from
  \<open>shouldScroll\<close>) are the same for any two blocks, container sizes and indices that give
  the same rectangle extent, character count and orientation; and two states of the
  component with the same blocks and the same container size give the same list of overlays,
  whatever the rest of the state.
\<close>

theorem C5_deterministic:
  "(degenerate b1 = degenerate b2
    \<and> rect_width (displayRect (vertices (boundingBox b1)) cw1 ch1)
      = rect_width (displayRect (vertices (boundingBox b2)) cw2 ch2)
    \<and> rect_height (displayRect (vertices (boundingBox b1)) cw1 ch1)
      = rect_height (displayRect (vertices (boundingBox b2)) cw2 ch2)
    \<and> charCountOf b1 = charCountOf b2
    \<and> orientation b1 = orientation b2
    \<longrightarrow> map_option fitFields (renderBlock cw1 ch1 b1 i1)
        = map_option fitFields (renderBlock cw2 ch2 b2 i2))
   \<and> (translatedBlocks s1 = translatedBlocks s2
      \<and> containerWidthOf s1 = containerWidthOf s2
      \<and> containerHeightOf s1 = containerHeightOf s2
      \<longrightarrow> textOverlays s1 = textOverlays s2)"
  by (simp add: renderBlock_def Let_def fitFields_def degenerate_def textOverlays_def)

theorem C5_deterministic_witness:
  "degenerate exampleBlockA = degenerate exampleBlockB
   \<and> rect_width (displayRect (vertices (boundingBox exampleBlockA)) 1000 1000)
     = rect_width (displayRect (vertices (boundingBox exampleBlockB)) 1000 1000)
   \<and> rect_height (displayRect (vertices (boundingBox exampleBlockA)) 1000 1000)
     = rect_height (displayRect (vertices (boundingBox exampleBlockB)) 1000 1000)
   \<and> charCountOf exampleBlockA = charCountOf exampleBlockB
   \<and> orientation exampleBlockA = orientation exampleBlockB
   \<and> map_option fitFields (renderBlock 1000 1000 exampleBlockA 0)
     = map_option fitFields (renderBlock 1000 1000 exampleBlockB 2)
   \<and> translatedBlocks exampleState
     = translatedBlocks (exampleState\<lparr>status := [], isProcessing := True, displayScale := 1\<rparr>)
   \<and> containerWidthOf exampleState
     = containerWidthOf (exampleState\<lparr>status := [], isProcessing := True, displayScale := 1\<rparr>)
   \<and> containerHeightOf exampleState
     = containerHeightOf (exampleState\<lparr>status := [], isProcessing := True, displayScale := 1\<rparr>)
   \<and> textOverlays exampleState
     = textOverlays (exampleState\<lparr>status := [], isProcessing := True, displayScale := 1\<rparr>)"
  using C5_deterministic [of exampleBlockA exampleBlockB 1000 1000 1000 1000 0 2
      exampleState "exampleState\<lparr>status := [], isProcessing := True, displayScale := 1\<rparr>"]
  by (simp add: degenerate_def example_defs displayRect_def mathMin_def mathMax_def orZero_id
      charCountOf_def containerWidthOf_def containerHeightOf_def)

text \<open>
  C7. The overlays are the results of the callback on the blocks that are not degenerate,
  in the order of the input and with the index each block has in the input; their number is
  the number of blocks less the number of degenerate ones. The callback returns \<open>null\<close>
  exactly on a degenerate block, and dropping a degenerate block from the input leaves the
  descriptors of the others as they are.
\<close>

theorem C7_order:
  "map Some (composeOverlays cw ch bs)
     = map (\<lambda>(idx, b). renderBlock cw ch b idx)
         (filter (\<lambda>(idx, b). \<not> degenerate b) (enumerate 0 bs))
   \<and> length (composeOverlays cw ch bs) = length bs - length (filter degenerate bs)
   \<and> (renderBlock cw ch b idx = None) = degenerate b
   \<and> (degenerate d \<longrightarrow>
        map descriptorOf (composeOverlays cw ch (xs @ d # ys))
        = map descriptorOf (composeOverlays cw ch (xs @ ys)))"
proof (intro conjI impI)
  show "map Some (composeOverlays cw ch bs)
     = map (\<lambda>(idx, b). renderBlock cw ch b idx)
         (filter (\<lambda>(idx, b). \<not> degenerate b) (enumerate 0 bs))"
    unfolding composeOverlays_def mapBlocks_def by (rule rows_Some)
next
  show "length (composeOverlays cw ch bs) = length bs - length (filter degenerate bs)"
    by (rule length_composeOverlays)
next
  show "(renderBlock cw ch b idx = None) = degenerate b"
    by (rule renderBlock_degenerate)
next
  assume "degenerate d"
  then show "map descriptorOf (composeOverlays cw ch (xs @ d # ys))
        = map descriptorOf (composeOverlays cw ch (xs @ ys))"
    by (rule descriptors_drop)
qed

theorem C7_order_witness:
  "degenerate exampleBlockDegenerate
   \<and> renderBlock 1000 1000 exampleBlockDegenerate 1 = None
   \<and> length (composeOverlays 1000 1000 [exampleBlockA, exampleBlockDegenerate, exampleBlockB]) = 2
   \<and> map descriptorOf
        (composeOverlays 1000 1000 [exampleBlockA, exampleBlockDegenerate, exampleBlockB])
     = map descriptorOf (composeOverlays 1000 1000 [exampleBlockA, exampleBlockB])"
  using C7_order [of 1000 1000 "[exampleBlockA, exampleBlockDegenerate, exampleBlockB]"
      exampleBlockDegenerate 1 exampleBlockDegenerate "[exampleBlockA]" "[exampleBlockB]"]
  by (simp add: degenerate_def example_defs)

text \<open>
  C9. The adapter gives a block the orientation \<open>vertical\<close> exactly when the raw
  orientation is the string "vertical"; every other raw value, of any kind, gives
  \<open>horizontal\<close>.
\<close>

theorem C9_orientation:
  "orientation (formatBlock b)
     = (if raw_orientation b = JSStr (utf16 ''vertical'') then vertical else horizontal)
   \<and> (orientation (formatBlock b) = vertical) = (raw_orientation b = JSStr (utf16 ''vertical''))
   \<and> map orientation (formattedBlocks bs)
     = map (\<lambda>b. if raw_orientation b = JSStr (utf16 ''vertical'') then vertical else horizontal) bs"
  by (simp add: formatBlock_def formattedBlocks_def split: prod.splits)

text \<open>
  C10. The character count of a block is never 0; for an empty translation it is 1, and the
  overlay of a block with an empty translation is the overlay of the same block with a
  translation of one code unit, but for its content.
\<close>

theorem C10_empty_text:
  "0 < charCountOf b
   \<and> charCountOf (b\<lparr>translatedText := []\<rparr>) = 1
   \<and> renderBlock cw ch (b\<lparr>translatedText := []\<rparr>) idx
     = map_option (\<lambda>ov. ov\<lparr>content := []\<rparr>) (renderBlock cw ch (b\<lparr>translatedText := [u]\<rparr>) idx)"
  by (simp add: charCountOf_def renderBlock_def Let_def)

end
